theory Spec2Isabelle
  imports Main "HOL-Library.Word" "HOL-Library.AList"
begin

section \<open>Data model\<close>

text \<open>
  The agent of \<^verbatim>\<open>tensorpipe_agent.cpp\<close> is written as chains of callbacks handed to an
  asynchronous transport. The embedding keeps every function and every lambda of the file
  as one HOL function over an explicit agent state. A lambda handed to the transport, to
  the thread pool or to a future is kept as a value (its captured variables are the
  constructor's arguments) until the environment fires it.
\<close>

type_synonym worker_id_t = int
type_synonym pipe = nat
type_synonym future_ref = nat

record WorkerInfo =
  workerName :: string
  workerId :: worker_id_t

text \<open>
  Modelled from the spec: the kind tag of a Message (\<^verbatim>\<open>message.h\<close> is not part of the
  sources at hand). The spec names request, response and exception; \<open>UNKNOWN\<close> is the tag
  of the default-constructed \<^verbatim>\<open>Message()\<close> that \<^verbatim>\<open>pipeRead\<close> passes on upon an error.
\<close>

datatype MessageType = REQUEST | RESPONSE | EXCEPTION | UNKNOWN

text \<open>A tensor is its storage; the payload is a \<^verbatim>\<open>std::vector<char>\<close>.\<close>

type_synonym tensor = "char list"

record Message =
  payload :: "char list"
  tensors :: "tensor list"
  msg_type :: MessageType
  msg_id :: "64 word"

definition isRequest :: "Message \<Rightarrow> bool" where
  "isRequest m = (msg_type m = REQUEST)"

definition default_Message :: Message where
  "default_Message = \<lparr>payload = [], tensors = [], msg_type = UNKNOWN, msg_id = - 1\<rparr>"

text \<open>
  Modelled from the spec: \<^verbatim>\<open>createExceptionResponse\<close> of \<^verbatim>\<open>utils.h\<close>, which is not part
  of the sources at hand: an exception response carries a textual payload describing the
  failure, under the message id it is given.
\<close>

definition createExceptionResponse :: "string \<Rightarrow> 64 word \<Rightarrow> Message" where
  "createExceptionResponse what i =
     \<lparr>payload = what, tensors = [], msg_type = EXCEPTION, msg_id = i\<rparr>"

text \<open>
  A destination pointer of the transport's message is an address inside the rpc Message
  that the read keeps alive: its payload buffer, or the storage of its \<open>i\<close>-th tensor.
\<close>

datatype bufptr = PayloadData | TensorData nat

record tpTensor =
  tt_length :: nat
  tt_data :: "bufptr option"

text \<open>
  \<^verbatim>\<open>tensorpipe::Message\<close>: what the descriptor delivers (the sizes, and the kind and id
  of the message as its metadata), with the data pointers the receiver fills in.
\<close>

record tpMessage =
  tp_type :: MessageType
  tp_id :: "64 word"
  tp_length :: nat
  tp_data :: "bufptr option"
  tp_tensors :: "tpTensor list"

text \<open>
  Modelled from the spec: \<^verbatim>\<open>tensorpipeSerialize\<close> and \<^verbatim>\<open>tensorpipeAllocateMessage\<close> of
  \<^verbatim>\<open>utils.h\<close>, which are not part of the sources at hand. The sender declares the payload
  and one separately transferred buffer for each tensor; the receiver allocates a
  destination matching the described shapes exactly.
\<close>

definition tensorpipeSerialize :: "Message \<Rightarrow> tpMessage" where
  "tensorpipeSerialize m =
     \<lparr>tp_type = msg_type m, tp_id = msg_id m, tp_length = length (payload m),
      tp_data = Some PayloadData,
      tp_tensors = map (\<lambda>(i, t). \<lparr>tt_length = length t, tt_data = Some (TensorData i)\<rparr>)
                       (enumerate 0 (tensors m))\<rparr>"

definition tensorpipeAllocateMessage :: "tpMessage \<Rightarrow> Message" where
  "tensorpipeAllocateMessage d =
     \<lparr>payload = replicate (tp_length d) (CHR 0x00),
      tensors = map (\<lambda>t. replicate (tt_length t) (CHR 0x00)) (tp_tensors d),
      msg_type = tp_type d, msg_id = tp_id d\<rparr>"

subsection \<open>Exceptions\<close>

text \<open>
  The arguments of \<^verbatim>\<open>c10::str\<close>, of \<^verbatim>\<open>TORCH_CHECK\<close> and of \<^verbatim>\<open>TORCH_INTERNAL_ASSERT\<close>,
  kept as the list the source writes (how a number is printed is not modelled).
\<close>

datatype str_arg = S string | I worker_id_t | T MessageType | U "64 word"

text \<open>
  What a call can throw: the failure of a \<^verbatim>\<open>TORCH_CHECK\<close>, of a
  \<^verbatim>\<open>TORCH_INTERNAL_ASSERT\<close>, a \<^verbatim>\<open>std::runtime_error\<close>, and the refusal of a future
  that is already complete to be completed again. \<open>NullPointer\<close> stands for a reference
  that is in no store; the code holds its futures and connections by shared pointers and
  by references into the registry, which never dangle, so this outcome only keeps the
  lookups of the model total.
\<close>

datatype exn =
    TorchCheck "str_arg list"
  | InternalAssert "str_arg list"
  | RuntimeError "str_arg list"
  | AlreadyCompleted
  | NullPointer

subsection \<open>Futures, callbacks and the agent state\<close>

text \<open>The lambda of \<^verbatim>\<open>respond\<close> registered with \<^verbatim>\<open>addCallback\<close>: it captures the pipe,
  the future and the message id.\<close>

datatype callback = SendResponse pipe future_ref "64 word"

text \<open>
  Modelled from the spec: \<^verbatim>\<open>FutureMessage\<close> (\<^verbatim>\<open>utils/future.h\<close> is not part of the
  sources at hand), a single-assignment completion cell: not yet complete, complete with
  a Message, or complete with an error description; its callbacks fire once, at
  completion. The fields are those the source reads through \<^verbatim>\<open>completed()\<close>,
  \<^verbatim>\<open>error()\<close> and \<^verbatim>\<open>moveValue()\<close>.
\<close>

record FutureMessage =
  f_completed :: bool
  f_value :: Message
  f_error :: "string option"
  f_callbacks :: "callback list"

definition new_FutureMessage :: FutureMessage where
  "new_FutureMessage =
     \<lparr>f_completed = False, f_value = default_Message, f_error = None, f_callbacks = []\<rparr>"

text \<open>The callbacks \<^verbatim>\<open>fn\<close> given to \<^verbatim>\<open>pipeRead\<close> and to \<^verbatim>\<open>pipeWrite\<close>.\<close>

datatype read_fn =
    RespondRead pipe
  | SendRead worker_id_t

datatype write_fn =
    ResponseWritten
  | ErrorResponseWritten
  | SendWritten worker_id_t future_ref

text \<open>
  An operation handed to the transport and not yet completed, with what its callback
  captures: the read of \<^verbatim>\<open>pipeRead\<close> holds the allocated rpc Message, the write of
  \<^verbatim>\<open>pipeWrite\<close> holds the Message being sent.
\<close>

datatype op =
    Accept
  | ReadDescriptor pipe read_fn
  | Read pipe tpMessage read_fn Message
  | Write pipe tpMessage Message write_fn

text \<open>The lambdas given to \<^verbatim>\<open>threadPool_.run\<close>.\<close>

datatype task =
    RespondTask pipe "64 word" Message
  | CompleteTask future_ref Message

record ClientPipe =
  cp_pipe :: pipe
  readError :: bool
  pendingResponseMessage :: "(64 word \<times> future_ref) list"

definition new_ClientPipe :: "pipe \<Rightarrow> ClientPipe" where
  "new_ClientPipe p = \<lparr>cp_pipe = p, readError = False, pendingResponseMessage = []\<rparr>"

record agent =
  selfInfo :: WorkerInfo
  rpcAgentRunning :: bool
  workerNameToURL :: "(string \<times> string) list"
  connectedPipes :: "(worker_id_t \<times> ClientPipe) list"
  nextMessageID :: "64 word"
  futures :: "(future_ref \<times> FutureMessage) list"
  nextFuture :: future_ref
  connected :: "string list"
  ops :: "op list"
  threadPool :: "task list"
  published :: "(string \<times> string) list"
  log :: "string list"

text \<open>A call returns normally (\<open>Inr\<close>) or throws (\<open>Inl\<close>); the state is the one it leaves.\<close>

type_synonym 'a outcome = "(exn + 'a) \<times> agent"

definition LOG_WARNING :: "string \<Rightarrow> agent \<Rightarrow> agent" where
  "LOG_WARNING line s = s\<lparr>log := log s @ [line]\<rparr>"

definition make_shared :: "agent \<Rightarrow> future_ref \<times> agent" where
  "make_shared s =
     (nextFuture s,
      s\<lparr>futures := AList.update (nextFuture s) new_FutureMessage (futures s),
        nextFuture := Suc (nextFuture s)\<rparr>)"

text \<open>\<^verbatim>\<open>context_->connect(url)\<close>: a new pipe, numbered by the order of connection.\<close>

definition context_connect :: "string \<Rightarrow> agent \<Rightarrow> pipe \<times> agent" where
  "context_connect url s = (length (connected s), s\<lparr>connected := connected s @ [url]\<rparr>)"

section \<open>The functions of the agent\<close>

definition pipeRead :: "pipe \<Rightarrow> read_fn \<Rightarrow> agent \<Rightarrow> agent" where
  "pipeRead p fn s = s\<lparr>ops := ops s @ [ReadDescriptor p fn]\<rparr>"

text \<open>The write holds the rpc Message (with the tensors that the serialization reserved
  or copied) until its callback fires.\<close>

definition pipeWrite :: "pipe \<Rightarrow> Message \<Rightarrow> write_fn \<Rightarrow> agent \<Rightarrow> agent" where
  "pipeWrite p rpcMessage fn s =
     s\<lparr>ops := ops s @ [Write p (tensorpipeSerialize rpcMessage) rpcMessage fn]\<rparr>"

text \<open>
  \<^verbatim>\<open>responseMessage\<close> is a reference to the value held by the future: \<^verbatim>\<open>setId\<close> writes
  through it, and the write of the success branch moves the value out (its buffers are
  left empty).
\<close>

definition moved_from :: "Message \<Rightarrow> Message" where
  "moved_from m = m\<lparr>payload := [], tensors := []\<rparr>"

definition sendCompletedResponseMessage ::
  "pipe \<Rightarrow> future_ref \<Rightarrow> 64 word \<Rightarrow> agent \<Rightarrow> unit outcome" where
  "sendCompletedResponseMessage p r messageId s =
     (if \<not> rpcAgentRunning s then
        (Inr (), LOG_WARNING ''RPC agent is being closed. Skip sending rpc response'' s)
      else
        case map_of (futures s) r of
          None \<Rightarrow> (Inl NullPointer, s)
        | Some f \<Rightarrow>
            let error = f_error f;
                responseMessage = (f_value f)\<lparr>msg_id := messageId\<rparr>
            in (case error of
                 None \<Rightarrow>
                   (Inr (),
                    pipeWrite p responseMessage ResponseWritten
                      (s\<lparr>futures :=
                           AList.update r (f\<lparr>f_value := moved_from responseMessage\<rparr>)
                             (futures s)\<rparr>))
               | Some what \<Rightarrow>
                   (Inr (),
                    pipeWrite p (createExceptionResponse what (msg_id responseMessage))
                      ErrorResponseWritten
                      (s\<lparr>futures :=
                           AList.update r (f\<lparr>f_value := responseMessage\<rparr>) (futures s)\<rparr>))))"

fun run_callback :: "callback \<Rightarrow> agent \<Rightarrow> unit outcome" where
  "run_callback (SendResponse p r messageId) s = sendCompletedResponseMessage p r messageId s"

fun run_callbacks :: "callback list \<Rightarrow> agent \<Rightarrow> unit outcome" where
  "run_callbacks [] s = (Inr (), s)"
| "run_callbacks (c # cs) s =
     (case run_callback c s of
        (Inl e, s') \<Rightarrow> (Inl e, s')
      | (Inr _, s') \<Rightarrow> run_callbacks cs s')"

text \<open>
  Modelled from the spec: the operations of the single-assignment cell. A cell is
  assigned once: completing a cell that is already complete is refused.
\<close>

definition setError :: "future_ref \<Rightarrow> string \<Rightarrow> agent \<Rightarrow> unit outcome" where
  "setError r what s =
     (case map_of (futures s) r of
        None \<Rightarrow> (Inl NullPointer, s)
      | Some f \<Rightarrow>
          if f_completed f then (Inl AlreadyCompleted, s)
          else run_callbacks (f_callbacks f)
                 (s\<lparr>futures :=
                      AList.update r
                        (f\<lparr>f_completed := True, f_error := Some what, f_callbacks := []\<rparr>)
                        (futures s)\<rparr>))"

definition markCompleted :: "future_ref \<Rightarrow> Message \<Rightarrow> agent \<Rightarrow> unit outcome" where
  "markCompleted r v s =
     (case map_of (futures s) r of
        None \<Rightarrow> (Inl NullPointer, s)
      | Some f \<Rightarrow>
          if f_completed f then (Inl AlreadyCompleted, s)
          else run_callbacks (f_callbacks f)
                 (s\<lparr>futures :=
                      AList.update r
                        (f\<lparr>f_completed := True, f_value := v, f_callbacks := []\<rparr>)
                        (futures s)\<rparr>))"

definition addCallback :: "future_ref \<Rightarrow> callback \<Rightarrow> agent \<Rightarrow> unit outcome" where
  "addCallback r cb s =
     (case map_of (futures s) r of
        None \<Rightarrow> (Inl NullPointer, s)
      | Some f \<Rightarrow>
          if f_completed f then run_callback cb s
          else (Inr (),
                s\<lparr>futures :=
                    AList.update r (f\<lparr>f_callbacks := f_callbacks f @ [cb]\<rparr>) (futures s)\<rparr>))"


subsection \<open>The listener and the server loop\<close>

definition respond :: "pipe \<Rightarrow> agent \<Rightarrow> agent" where
  "respond p s = pipeRead p (RespondRead p) s"

definition onListenerAccepted :: "string option \<Rightarrow> pipe \<Rightarrow> agent \<Rightarrow> agent" where
  "onListenerAccepted error p s =
     (case error of
        Some what \<Rightarrow> LOG_WARNING (''got error from listener: '' @ what) s
      | None \<Rightarrow> respond p (s\<lparr>ops := ops s @ [Accept]\<rparr>))"

text \<open>The lambda that \<^verbatim>\<open>respond\<close> gives to \<^verbatim>\<open>pipeRead\<close>.\<close>

definition respond_read :: "pipe \<Rightarrow> string option \<Rightarrow> Message \<Rightarrow> agent \<Rightarrow> agent" where
  "respond_read p error requestMessage s =
     (case error of
        Some what \<Rightarrow> LOG_WARNING (''Server read message: '' @ what) s
      | None \<Rightarrow>
          let s1 = respond p s;
              messageId = msg_id requestMessage
          in s1\<lparr>threadPool := threadPool s1 @ [RespondTask p messageId requestMessage]\<rparr>)"

text \<open>
  What the user callback \<^verbatim>\<open>cb_->operator()(requestMessage)\<close> does is outside the agent:
  it throws, or it returns a future that is still pending, holds a Message or holds an
  error.
\<close>

datatype cb_result =
    Throws string
  | ReturnsPending
  | ReturnsValue Message
  | ReturnsError string

fun returned_future :: "cb_result \<Rightarrow> FutureMessage" where
  "returned_future (ReturnsValue m) = new_FutureMessage\<lparr>f_completed := True, f_value := m\<rparr>"
| "returned_future (ReturnsError what) =
     new_FutureMessage\<lparr>f_completed := True, f_error := Some what\<rparr>"
| "returned_future _ = new_FutureMessage"

text \<open>The lambda that \<^verbatim>\<open>respond\<close> defers to the thread pool. The future that the
  user callback returns is a new cell of the store, as the one made in the \<^verbatim>\<open>catch\<close>
  branch is.\<close>

definition respond_task ::
  "cb_result \<Rightarrow> pipe \<Rightarrow> 64 word \<Rightarrow> Message \<Rightarrow> agent \<Rightarrow> unit outcome" where
  "respond_task cb p messageId requestMessage s =
     (let (futureResponseMessage, s1) = make_shared s
      in case (case cb of
                 Throws what \<Rightarrow> setError futureResponseMessage what s1
               | _ \<Rightarrow>
                   (Inr (),
                    s1\<lparr>futures :=
                         AList.update futureResponseMessage (returned_future cb)
                           (futures s1)\<rparr>)) of
           (Inl e, s2) \<Rightarrow> (Inl e, s2)
         | (Inr _, s2) \<Rightarrow>
             (case map_of (futures s2) futureResponseMessage of
                None \<Rightarrow> (Inl NullPointer, s2)
              | Some f \<Rightarrow>
                  if f_completed f then
                    sendCompletedResponseMessage p futureResponseMessage messageId s2
                  else
                    addCallback futureResponseMessage
                      (SendResponse p futureResponseMessage messageId) s2))"

subsection \<open>The client: send and its callbacks\<close>

definition findWorkerURL :: "WorkerInfo \<Rightarrow> agent \<Rightarrow> exn + string" where
  "findWorkerURL worker s =
     (case map_of (workerNameToURL s) (workerName worker) of
        None \<Rightarrow> Inl (TorchCheck [S ''Unknown worker name: '', S (workerName worker)])
      | Some url \<Rightarrow> Inr url)"

definition update_pipe :: "worker_id_t \<Rightarrow> (ClientPipe \<Rightarrow> ClientPipe) \<Rightarrow> agent \<Rightarrow> agent" where
  "update_pipe w f s = s\<lparr>connectedPipes := AList.map_entry w f (connectedPipes s)\<rparr>"

definition send :: "WorkerInfo \<Rightarrow> Message \<Rightarrow> agent \<Rightarrow> future_ref outcome" where
  "send toWorkerInfo requestMessage s =
     (if \<not> isRequest requestMessage then
        (Inl (TorchCheck [S ''TensorPipeAgent::send(..) is only for sending requests.'']), s)
      else if \<not> rpcAgentRunning s then
        (Inl (RuntimeError
               [S ''Node '', I (workerId (selfInfo s)),
                S ''tried to send() a message of type '', T (msg_type requestMessage),
                S '' but RPC is no longer running on this node.'']), s)
      else
        case findWorkerURL toWorkerInfo s of
          Inl e \<Rightarrow> (Inl e, s)
        | Inr url \<Rightarrow>
            let s1 = (case map_of (connectedPipes s) (workerId toWorkerInfo) of
                        Some _ \<Rightarrow> s
                      | None \<Rightarrow>
                          let (p, s') = context_connect url s
                          in s'\<lparr>connectedPipes :=
                                 connectedPipes s' @
                                   [(workerId toWorkerInfo, new_ClientPipe p)]\<rparr>);
                (futureResponseMessage, s2) = make_shared s1;
                requestMessage' = requestMessage\<lparr>msg_id := nextMessageID s2\<rparr>;
                s3 = s2\<lparr>nextMessageID := nextMessageID s2 + 1\<rparr>;
                s4 = update_pipe (workerId toWorkerInfo)
                       (\<lambda>cp. cp\<lparr>pendingResponseMessage :=
                                  AList.update (msg_id requestMessage') futureResponseMessage
                                    (pendingResponseMessage cp)\<rparr>) s3
            in (case map_of (connectedPipes s4) (workerId toWorkerInfo) of
                 None \<Rightarrow> (Inl NullPointer, s4)
               | Some clientPipe \<Rightarrow>
                   (Inr futureResponseMessage,
                    pipeWrite (cp_pipe clientPipe) requestMessage'
                      (SendWritten (workerId toWorkerInfo) futureResponseMessage) s4)))"

text \<open>The loop of the read-error branch: \<^verbatim>\<open>setError\<close> on every entry of the table, in
  the order the container yields them.\<close>

fun flush :: "(64 word \<times> future_ref) list \<Rightarrow> string \<Rightarrow> agent \<Rightarrow> unit outcome" where
  "flush [] what s = (Inr (), s)"
| "flush (p # ps) what s =
     (case setError (snd p) what s of
        (Inl e, s') \<Rightarrow> (Inl e, s')
      | (Inr _, s') \<Rightarrow> flush ps what s')"

text \<open>The lambda that the write callback of \<^verbatim>\<open>send\<close> gives to \<^verbatim>\<open>pipeRead\<close>.\<close>

definition send_read ::
  "worker_id_t \<Rightarrow> string option \<Rightarrow> Message \<Rightarrow> agent \<Rightarrow> unit outcome" where
  "send_read w error responseMessage s =
     (case map_of (connectedPipes s) w of
        None \<Rightarrow> (Inl NullPointer, s)
      | Some clientPipe \<Rightarrow>
          (case error of
             Some what \<Rightarrow>
               (case flush (pendingResponseMessage clientPipe) what
                       (LOG_WARNING (''Read response error: '' @ what) s) of
                  (Inl e, s') \<Rightarrow> (Inl e, s')
                | (Inr _, s') \<Rightarrow>
                    (Inr (),
                     update_pipe w (\<lambda>cp. cp\<lparr>readError := True\<rparr>)
                       (update_pipe w (\<lambda>cp. cp\<lparr>pendingResponseMessage := []\<rparr>) s')))
           | None \<Rightarrow>
               let messageId = msg_id responseMessage
               in if readError clientPipe then
                    (Inl (InternalAssert [S (''Shouldn'' @ [CHR 0x27] @ ''t in error state'')]), s)
                  else
                    (case map_of (pendingResponseMessage clientPipe) messageId of
                      None \<Rightarrow>
                        (Inl (InternalAssert
                               [S ''message ID '', U messageId, S '' is not recognized'']), s)
                    | Some futureResponseMessage \<Rightarrow>
                        let s1 = update_pipe w
                                   (\<lambda>cp. cp\<lparr>pendingResponseMessage :=
                                              AList.delete messageId
                                                (pendingResponseMessage cp)\<rparr>) s
                        in (Inr (),
                            s1\<lparr>threadPool :=
                                 threadPool s1 @
                                   [CompleteTask futureResponseMessage responseMessage]\<rparr>))))"

text \<open>The lambda that the read callback of \<^verbatim>\<open>send\<close> defers to the thread pool.\<close>

definition complete_task :: "future_ref \<Rightarrow> Message \<Rightarrow> agent \<Rightarrow> unit outcome" where
  "complete_task futureResponseMessage responseMessage s =
     (if msg_type responseMessage = EXCEPTION then
        setError futureResponseMessage (payload responseMessage) s
      else markCompleted futureResponseMessage responseMessage s)"

text \<open>The lambda that \<^verbatim>\<open>send\<close> gives to \<^verbatim>\<open>pipeWrite\<close>.\<close>

definition send_write ::
  "worker_id_t \<Rightarrow> future_ref \<Rightarrow> string option \<Rightarrow> agent \<Rightarrow> unit outcome" where
  "send_write w futureResponseMessage error s =
     (case error of
        Some what \<Rightarrow>
          setError futureResponseMessage what
            (LOG_WARNING (''client write error: '' @ what) s)
      | None \<Rightarrow>
          (case map_of (connectedPipes s) w of
             None \<Rightarrow> (Inl NullPointer, s)
           | Some clientPipe \<Rightarrow> (Inr (), pipeRead (cp_pipe clientPipe) (SendRead w) s)))"

subsection \<open>The callbacks of pipeRead and pipeWrite\<close>

definition invoke_read_fn ::
  "read_fn \<Rightarrow> string option \<Rightarrow> Message \<Rightarrow> agent \<Rightarrow> unit outcome" where
  "invoke_read_fn fn error m s =
     (case fn of
        RespondRead p \<Rightarrow> (Inr (), respond_read p error m s)
      | SendRead w \<Rightarrow> send_read w error m s)"

definition invoke_write_fn :: "write_fn \<Rightarrow> string option \<Rightarrow> agent \<Rightarrow> unit outcome" where
  "invoke_write_fn fn error s =
     (case fn of
        ResponseWritten \<Rightarrow>
          (Inr (), case error of
                     Some what \<Rightarrow> LOG_WARNING (''sending response failed: '' @ what) s
                   | None \<Rightarrow> s)
      | ErrorResponseWritten \<Rightarrow>
          (Inr (), case error of
                     Some what \<Rightarrow> LOG_WARNING (''sending error response failed: '' @ what) s
                   | None \<Rightarrow> s)
      | SendWritten w r \<Rightarrow> send_write w r error s)"

text \<open>The loop of \<^verbatim>\<open>pipeRead\<close> that points each tensor of the transport's message at the
  storage of the tensor allocated for it.\<close>

definition fill_tensor_pointers :: "Message \<Rightarrow> tpTensor list \<Rightarrow> tpTensor list" where
  "fill_tensor_pointers rpcMessage ts =
     fold (\<lambda>i ts. ts[i := (ts ! i)\<lparr>tt_data := Some (TensorData i)\<rparr>])
       [0 ..< length (tensors rpcMessage)] ts"

text \<open>
  The lambda that \<^verbatim>\<open>pipeRead\<close> gives to \<^verbatim>\<open>readDescriptor\<close>. The allocator is a parameter,
  so that the assertion on the number of tensors is checked against any allocator.
\<close>

definition pipeRead_descriptor ::
  "(tpMessage \<Rightarrow> Message) \<Rightarrow> pipe \<Rightarrow> read_fn \<Rightarrow> string option \<Rightarrow> tpMessage \<Rightarrow> agent
     \<Rightarrow> unit outcome" where
  "pipeRead_descriptor allocate p fn error tpMessage s =
     (case error of
        Some what \<Rightarrow> invoke_read_fn fn error default_Message s
      | None \<Rightarrow>
          let rpcMessage = allocate tpMessage
          in if length (tensors rpcMessage) \<noteq> length (tp_tensors tpMessage) then
               (Inl (InternalAssert [S ''Tensor num mismatch'']), s)
             else
               let tpMessage' =
                     tpMessage\<lparr>tp_data := Some PayloadData,
                               tp_tensors :=
                                 fill_tensor_pointers rpcMessage (tp_tensors tpMessage)\<rparr>
               in (Inr (), s\<lparr>ops := ops s @ [Read p tpMessage' fn rpcMessage]\<rparr>))"

text \<open>The lambda that \<^verbatim>\<open>pipeRead\<close> gives to \<^verbatim>\<open>read\<close>: it holds the rpc Message and hands
  it to \<^verbatim>\<open>fn\<close>.\<close>

definition pipeRead_read ::
  "read_fn \<Rightarrow> Message \<Rightarrow> string option \<Rightarrow> agent \<Rightarrow> unit outcome" where
  "pipeRead_read fn rpcMessage error s = invoke_read_fn fn error rpcMessage s"

text \<open>The lambda that \<^verbatim>\<open>pipeWrite\<close> gives to \<^verbatim>\<open>write\<close>.\<close>

definition pipeWrite_written :: "write_fn \<Rightarrow> string option \<Rightarrow> agent \<Rightarrow> unit outcome" where
  "pipeWrite_written fn error s = invoke_write_fn fn error s"


subsection \<open>Construction and start\<close>

text \<open>
  The constructor leaves an agent with no connection and the counter at 0. The two
  indexes it builds from \<^verbatim>\<open>opts_.workerNameToId\<close> are read by \<^verbatim>\<open>startImpl\<close> only for the
  worker names, which are kept here as the list \<open>names\<close>.
\<close>

definition TensorPipeAgent :: "worker_id_t \<Rightarrow> string \<Rightarrow> agent" where
  "TensorPipeAgent selfId selfName =
     \<lparr>selfInfo = \<lparr>workerName = selfName, workerId = selfId\<rparr>,
      rpcAgentRunning = False, workerNameToURL = [], connectedPipes = [],
      nextMessageID = 0, futures = [], nextFuture = 0, connected = [], ops = [],
      threadPool = [], published = [], log = []\<rparr>"

text \<open>
  \<^verbatim>\<open>startImpl\<close>: the agent publishes the address of its listener, fetches the address of
  every named worker from the store (\<open>get\<close>; \<^verbatim>\<open>insert\<close> keeps an entry that is already
  there) and arms the first accept.
\<close>

definition startImpl :: "string \<Rightarrow> (string \<Rightarrow> string) \<Rightarrow> string list \<Rightarrow> agent \<Rightarrow> agent" where
  "startImpl address get names s =
     (let s1 = s\<lparr>published := published s @ [(workerName (selfInfo s), address)]\<rparr>;
          s2 = s1\<lparr>workerNameToURL :=
                    fold (\<lambda>name m. case map_of m name of
                                      None \<Rightarrow> m @ [(name, get name)]
                                    | Some _ \<Rightarrow> m)
                      names (workerNameToURL s1)\<rparr>
      in s2\<lparr>ops := ops s2 @ [Accept]\<rparr>)"

text \<open>
  Modelled from the spec: the start and stop operations of the agent's lifecycle
  (\<^verbatim>\<open>rpc_agent.cpp\<close> is not part of the sources at hand): one running/stopped flag.
\<close>

definition start :: "string \<Rightarrow> (string \<Rightarrow> string) \<Rightarrow> string list \<Rightarrow> agent \<Rightarrow> agent" where
  "start address get names s = startImpl address get names (s\<lparr>rpcAgentRunning := True\<rparr>)"

definition stop :: "agent \<Rightarrow> agent" where
  "stop s = s\<lparr>rpcAgentRunning := False\<rparr>"

section \<open>The environment: the transport, the thread pool and the caller\<close>

text \<open>
  What happens to the agent from outside: the caller sends; the transport completes one
  of the outstanding operations, with an error or with data; a pool thread runs one of
  the queued tasks (for a request, with what the user callback does); a future that the
  user callback returned pending is completed; the agent is told to stop.
\<close>

datatype event =
    CallSend WorkerInfo Message
  | Accepted nat "string option" pipe
  | DescriptorRead nat "string option" tpMessage
  | DataRead nat "string option" "char list" "tensor list"
  | Written nat "string option"
  | RunTask nat cb_result
  | FutureError future_ref string
  | FutureValue future_ref Message
  | Stop

text \<open>The transport moves the bytes to where the data pointers of its message point.\<close>

fun store_tensor :: "tpTensor \<times> tensor \<Rightarrow> tensor list \<Rightarrow> tensor list" where
  "store_tensor (t, bytes) ts =
     (case tt_data t of
        Some (TensorData i) \<Rightarrow> if i < length ts then ts[i := bytes] else ts
      | _ \<Rightarrow> ts)"

definition transport_fill ::
  "tpMessage \<Rightarrow> char list \<Rightarrow> tensor list \<Rightarrow> Message \<Rightarrow> Message" where
  "transport_fill tpm bytes tbytes rpcMessage =
     rpcMessage
       \<lparr>payload := (if tp_data tpm = Some PayloadData then bytes else payload rpcMessage),
        tensors := fold store_tensor (zip (tp_tensors tpm) tbytes) (tensors rpcMessage)\<rparr>"

definition remove_nth :: "nat \<Rightarrow> 'a list \<Rightarrow> 'a list" where
  "remove_nth i xs = take i xs @ drop (Suc i) xs"

definition take_op :: "nat \<Rightarrow> agent \<Rightarrow> agent" where
  "take_op i s = s\<lparr>ops := remove_nth i (ops s)\<rparr>"

text \<open>
  One event. \<open>None\<close>: the event cannot happen in this state (there is no such operation
  or task). An exception of \<^verbatim>\<open>send\<close> goes to the caller and the agent goes on; an
  exception of a callback is the outcome of the step.
\<close>

definition step :: "event \<Rightarrow> agent \<Rightarrow> unit outcome option" where
  "step ev s =
     (case ev of
        CallSend to requestMessage \<Rightarrow>
          (case send to requestMessage s of (_, s') \<Rightarrow> Some (Inr (), s'))
      | Accepted i error p \<Rightarrow>
          (if i < length (ops s) then
             (case ops s ! i of
                Accept \<Rightarrow> Some (Inr (), onListenerAccepted error p (take_op i s))
              | _ \<Rightarrow> None)
           else None)
      | DescriptorRead i error tpMessage \<Rightarrow>
          (if i < length (ops s) then
             (case ops s ! i of
                ReadDescriptor p fn \<Rightarrow>
                  Some (pipeRead_descriptor tensorpipeAllocateMessage p fn error tpMessage
                          (take_op i s))
              | _ \<Rightarrow> None)
           else None)
      | DataRead i error bytes tbytes \<Rightarrow>
          (if i < length (ops s) then
             (case ops s ! i of
                Read p tpm fn rpcMessage \<Rightarrow>
                  Some (pipeRead_read fn (transport_fill tpm bytes tbytes rpcMessage) error
                          (take_op i s))
              | _ \<Rightarrow> None)
           else None)
      | Written i error \<Rightarrow>
          (if i < length (ops s) then
             (case ops s ! i of
                Write p tpm rpcMessage fn \<Rightarrow> Some (pipeWrite_written fn error (take_op i s))
              | _ \<Rightarrow> None)
           else None)
      | RunTask i cb \<Rightarrow>
          (if i < length (threadPool s) then
             (let s' = s\<lparr>threadPool := remove_nth i (threadPool s)\<rparr>
              in case threadPool s ! i of
                   RespondTask p messageId requestMessage \<Rightarrow>
                     Some (respond_task cb p messageId requestMessage s')
                 | CompleteTask r responseMessage \<Rightarrow>
                     Some (complete_task r responseMessage s'))
           else None)
      | FutureError r what \<Rightarrow>
          (case map_of (futures s) r of
             None \<Rightarrow> None
           | Some _ \<Rightarrow> Some (setError r what s))
      | FutureValue r v \<Rightarrow>
          (case map_of (futures s) r of
             None \<Rightarrow> None
           | Some _ \<Rightarrow> Some (markCompleted r v s))
      | Stop \<Rightarrow> Some (Inr (), stop s))"

text \<open>A run: the events in order, up to the first exception of a callback.\<close>

fun exec :: "event list \<Rightarrow> agent \<Rightarrow> unit outcome option" where
  "exec [] s = Some (Inr (), s)"
| "exec (ev # evs) s =
     (case step ev s of
        None \<Rightarrow> None
      | Some (Inl e, s') \<Rightarrow> Some (Inl e, s')
      | Some (Inr _, s') \<Rightarrow> exec evs s')"

section \<open>Vocabulary of the properties\<close>

text \<open>What a handle holds, as the caller of \<^verbatim>\<open>send\<close> observes it.\<close>

definition pending :: "agent \<Rightarrow> future_ref \<Rightarrow> bool" where
  "pending s r = (case map_of (futures s) r of Some f \<Rightarrow> \<not> f_completed f | None \<Rightarrow> False)"

definition awaiting :: "agent \<Rightarrow> future_ref \<Rightarrow> bool" where
  "awaiting s r =
     (case map_of (futures s) r of
        Some f \<Rightarrow> \<not> f_completed f \<and> f_error f = None \<and> f_callbacks f = []
      | None \<Rightarrow> False)"

definition failed_with :: "agent \<Rightarrow> future_ref \<Rightarrow> string \<Rightarrow> bool" where
  "failed_with s r what =
     (case map_of (futures s) r of
        Some f \<Rightarrow> f_completed f \<and> f_error f = Some what
      | None \<Rightarrow> False)"

definition succeeded_with :: "agent \<Rightarrow> future_ref \<Rightarrow> Message \<Rightarrow> bool" where
  "succeeded_with s r v =
     (case map_of (futures s) r of
        Some f \<Rightarrow> f_completed f \<and> f_error f = None \<and> f_value f = v
      | None \<Rightarrow> False)"

text \<open>The handle \<open>r\<close> is in the pending table of the connection to worker \<open>w\<close>, under
  the message id \<open>i\<close>.\<close>

definition registered :: "agent \<Rightarrow> worker_id_t \<Rightarrow> 64 word \<Rightarrow> future_ref \<Rightarrow> bool" where
  "registered s w i r =
     (case map_of (connectedPipes s) w of
        Some cp \<Rightarrow> map_of (pendingResponseMessage cp) i = Some r
      | None \<Rightarrow> False)"

text \<open>The operations of the transport by their kind.\<close>

definition is_read :: "op \<Rightarrow> bool" where
  "is_read x = (case x of ReadDescriptor _ _ \<Rightarrow> True | Read _ _ _ _ \<Rightarrow> True | _ \<Rightarrow> False)"

definition is_server_write :: "op \<Rightarrow> bool" where
  "is_server_write x =
     (case x of
        Write p tpm m fn \<Rightarrow> fn = ResponseWritten \<or> fn = ErrorResponseWritten
      | _ \<Rightarrow> False)"

text \<open>A write of the server loop on pipe \<open>p\<close> whose Message, and whose descriptor,
  carry the message id \<open>i\<close>.\<close>

definition is_response_to :: "64 word \<Rightarrow> pipe \<Rightarrow> op \<Rightarrow> bool" where
  "is_response_to i p x =
     (case x of
        Write p' tpm m fn \<Rightarrow>
          p' = p \<and> msg_id m = i \<and> tpm = tensorpipeSerialize m \<and>
          (fn = ResponseWritten \<or> fn = ErrorResponseWritten)
      | _ \<Rightarrow> False)"

text \<open>Two states whose futures agree on what is complete, with which error, and on the
  callbacks still registered.\<close>

definition same_cells :: "agent \<Rightarrow> agent \<Rightarrow> bool" where
  "same_cells s s' =
     (\<forall>r. rel_option (\<lambda>f f'. f_completed f' = f_completed f \<and> f_error f' = f_error f
                               \<and> f_callbacks f' = f_callbacks f)
            (map_of (futures s) r) (map_of (futures s') r))"

subsection \<open>A concrete agent\<close>

text \<open>Worker A (id 0), started, knowing the addresses of A and B; worker B (id 1); a
  request.\<close>

definition A0 :: agent where
  "A0 = start ''tcp://127.0.0.1:1'' (\<lambda>name. ''tcp://'' @ name) [''A'', ''B'']
          (TensorPipeAgent 0 ''A'')"

definition B :: WorkerInfo where
  "B = \<lparr>workerName = ''B'', workerId = 1\<rparr>"

definition req :: Message where
  "req = \<lparr>payload = ''ping'', tensors = [], msg_type = REQUEST, msg_id = 0\<rparr>"

text \<open>The agent after one send to B; an exception response and a plain response to
  that request.\<close>

definition A1 :: agent where
  "A1 = snd (send B req A0)"

definition boom :: Message where
  "boom = \<lparr>payload = ''boom'', tensors = [], msg_type = EXCEPTION, msg_id = 0\<rparr>"

definition pong :: Message where
  "pong = \<lparr>payload = ''pong'', tensors = [], msg_type = RESPONSE, msg_id = 0\<rparr>"

text \<open>The future \<open>r\<close> is not complete and its only callback is the one that \<^verbatim>\<open>respond\<close>
  registers: send the response on pipe \<open>p\<close> under the message id \<open>i\<close>.\<close>

definition deferred :: "agent \<Rightarrow> future_ref \<Rightarrow> pipe \<Rightarrow> 64 word \<Rightarrow> bool" where
  "deferred s r p i =
     (case map_of (futures s) r of
        Some f \<Rightarrow> \<not> f_completed f \<and> f_callbacks f = [SendResponse p r i]
      | None \<Rightarrow> False)"

text \<open>A request that arrives with the message id 5.\<close>

definition req5 :: Message where
  "req5 = \<lparr>payload = ''ping'', tensors = [], msg_type = REQUEST, msg_id = 5\<rparr>"

text \<open>What the transport hands over with a failed read of a descriptor.\<close>

definition garbage :: tpMessage where
  "garbage = \<lparr>tp_type = UNKNOWN, tp_id = 0, tp_length = 0, tp_data = None, tp_tensors = []\<rparr>"

text \<open>
  Worker A sends two requests to B. The first write succeeds, which arms a read; the
  second write fails; then the armed read fails.
\<close>

definition write_fails_then_read_fails :: "event list" where
  "write_fails_then_read_fails =
     [CallSend B req, Written 1 None, CallSend B req, Written 2 (Some ''broken pipe''),
      DescriptorRead 1 (Some ''eof'') garbage]"

text \<open>The agent after one send to B and a read error on that connection.\<close>

definition A1_severed :: agent where
  "A1_severed = snd (send_read 1 (Some ''eof'') default_Message A1)"

text \<open>
  Worker A sends two requests to B, both writes succeed, and the first armed read fails
  while both requests are pending.
\<close>

definition severed_with_two_pending :: "event list" where
  "severed_with_two_pending =
     [CallSend B req, Written 1 None, CallSend B req, Written 2 None,
      DescriptorRead 1 (Some ''eof'') garbage]"

text \<open>The number of accept operations outstanding at the listener.\<close>

definition accepts :: "agent \<Rightarrow> nat" where
  "accepts s = length (filter (\<lambda>x. x = Accept) (ops s))"

definition is_Accepted :: "event \<Rightarrow> bool" where
  "is_Accepted ev = (case ev of Accepted _ _ _ \<Rightarrow> True | _ \<Rightarrow> False)"

text \<open>The message ids in the pending table of the connection to worker \<open>w\<close>.\<close>

definition ids_of :: "agent \<Rightarrow> worker_id_t \<Rightarrow> 64 word set" where
  "ids_of s w =
     (case map_of (connectedPipes s) w of
        Some cp \<Rightarrow> fst ` set (pendingResponseMessage cp)
      | None \<Rightarrow> {})"

text \<open>A transition that leaves the counter alone, adds no id to any pending table and
  arms no accept.\<close>

definition calm :: "agent \<Rightarrow> agent \<Rightarrow> bool" where
  "calm s s' =
     (nextMessageID s' = nextMessageID s \<and> (\<forall>w. ids_of s' w \<subseteq> ids_of s w) \<and>
      accepts s' = accepts s)"

definition is_CallSend :: "event \<Rightarrow> bool" where
  "is_CallSend ev = (case ev of CallSend _ _ \<Rightarrow> True | _ \<Rightarrow> False)"

text \<open>The number of calls of \<^verbatim>\<open>send\<close> in a run.\<close>

definition sends :: "event list \<Rightarrow> nat" where
  "sends evs = length (filter is_CallSend evs)"

text \<open>Every id in a pending table is one of the last \<open>n\<close> values the counter gave out.\<close>

definition issued_within :: "nat \<Rightarrow> agent \<Rightarrow> bool" where
  "issued_within n s =
     (\<forall>w. \<forall>k \<in> ids_of s w. \<exists>j<n. k = nextMessageID s - 1 - of_nat j)"

text \<open>No message id is in the pending tables of two connections.\<close>

definition tables_disjoint :: "agent \<Rightarrow> bool" where
  "tables_disjoint s = (\<forall>w w'. w \<noteq> w' \<longrightarrow> ids_of s w \<inter> ids_of s w' = {})"

text \<open>The agent after its first accept completed with an error.\<close>

definition A0_deaf :: agent where
  "A0_deaf = onListenerAccepted (Some ''accept failed'') 7 (take_op 0 A0)"

text \<open>A run of \<open>2 ^ 64\<close> sends to B, none of which is answered.\<close>

definition wraparound_run :: "event list" where
  "wraparound_run = replicate (2 ^ 64) (CallSend B req)"

text \<open>
  Worker A sends two requests to B. The first write succeeds, which arms a read; that read
  fails while the second write is still outstanding; then the second write fails.
\<close>

definition read_fails_then_write_fails :: "event list" where
  "read_fails_then_write_fails =
     [CallSend B req, Written 1 None, CallSend B req,
      DescriptorRead 1 (Some ''eof'') garbage, Written 1 (Some ''broken pipe'')]"

section \<open>Properties\<close>

lemma same_cells_refl [simp]: "same_cells s s"
  by (simp add: same_cells_def option.rel_refl)

lemma same_cells_trans: "same_cells s s' \<Longrightarrow> same_cells s' s'' \<Longrightarrow> same_cells s s''"
  unfolding same_cells_def
proof (intro allI)
  fix r
  assume a: "\<forall>r. rel_option (\<lambda>f f'. f_completed f' = f_completed f \<and> f_error f' = f_error f
                               \<and> f_callbacks f' = f_callbacks f)
            (map_of (futures s) r) (map_of (futures s') r)"
    and b: "\<forall>r. rel_option (\<lambda>f f'. f_completed f' = f_completed f \<and> f_error f' = f_error f
                               \<and> f_callbacks f' = f_callbacks f)
            (map_of (futures s') r) (map_of (futures s'') r)"
  from a[rule_format, of r] b[rule_format, of r]
  show "rel_option (\<lambda>f f'. f_completed f' = f_completed f \<and> f_error f' = f_error f
                               \<and> f_callbacks f' = f_callbacks f)
            (map_of (futures s) r) (map_of (futures s'') r)"
    by (cases "map_of (futures s) r"; cases "map_of (futures s') r"; cases "map_of (futures s'') r") auto
qed

lemma sendCompleted_frame:
  assumes "sendCompletedResponseMessage p r i s = (res, s')"
  shows "connectedPipes s' = connectedPipes s" "nextMessageID s' = nextMessageID s"
    "threadPool s' = threadPool s" "connected s' = connected s"
    "rpcAgentRunning s' = rpcAgentRunning s" "nextFuture s' = nextFuture s"
    "workerNameToURL s' = workerNameToURL s" "selfInfo s' = selfInfo s"
  using assms
  by (auto simp: sendCompletedResponseMessage_def pipeWrite_def LOG_WARNING_def Let_def
           split: if_splits option.splits)

lemma sendCompleted_cells:
  assumes "sendCompletedResponseMessage p r i s = (res, s')"
  shows "same_cells s s'"
  using assms
  by (auto simp: sendCompletedResponseMessage_def pipeWrite_def LOG_WARNING_def Let_def
        same_cells_def update_conv' option.rel_refl
           split: if_splits option.splits)

lemma sendCompleted_ops:
  assumes "sendCompletedResponseMessage p r i s = (res, s')"
  shows "\<exists>ws. ops s' = ops s @ ws \<and> list_all (is_response_to i p) ws"
  using assms
  by (auto simp: sendCompletedResponseMessage_def pipeWrite_def LOG_WARNING_def Let_def
        is_response_to_def createExceptionResponse_def
           split: if_splits option.splits)

lemma is_response_to_server_write: "is_response_to i p x \<Longrightarrow> is_server_write x"
  by (auto simp: is_response_to_def is_server_write_def split: op.splits)

lemma sendCompleted_server_writes:
  assumes "sendCompletedResponseMessage p r i s = (res, s')"
  shows "\<exists>ws. ops s' = ops s @ ws \<and> list_all is_server_write ws"
proof -
  from sendCompleted_ops[OF assms] obtain ws
    where "ops s' = ops s @ ws" "list_all (is_response_to i p) ws" by blast
  then show ?thesis
    by (auto simp: list_all_iff intro: is_response_to_server_write)
qed

lemma run_callbacks_frame:
  assumes "run_callbacks cs s = (res, s')"
  shows "connectedPipes s' = connectedPipes s \<and> nextMessageID s' = nextMessageID s \<and>
    threadPool s' = threadPool s \<and> connected s' = connected s \<and>
    rpcAgentRunning s' = rpcAgentRunning s \<and> nextFuture s' = nextFuture s \<and>
    workerNameToURL s' = workerNameToURL s \<and> selfInfo s' = selfInfo s"
  using assms
proof (induction cs arbitrary: s)
  case Nil
  then show ?case by simp
next
  case (Cons c cs)
  obtain p r i where c: "c = SendResponse p r i" by (cases c)
  obtain res1 s1 where one: "sendCompletedResponseMessage p r i s = (res1, s1)"
    by (cases "sendCompletedResponseMessage p r i s")
  note fr = sendCompleted_frame[OF one]
  show ?case
  proof (cases res1)
    case (Inl e)
    with Cons.prems c one fr show ?thesis by simp
  next
    case (Inr u)
    with Cons.prems c one have "run_callbacks cs s1 = (res, s')" by simp
    from Cons.IH[OF this] fr show ?thesis by simp
  qed
qed

lemma run_callbacks_cells:
  assumes "run_callbacks cs s = (res, s')"
  shows "same_cells s s'"
  using assms
proof (induction cs arbitrary: s)
  case Nil
  then show ?case by simp
next
  case (Cons c cs)
  obtain p r i where c: "c = SendResponse p r i" by (cases c)
  obtain res1 s1 where one: "sendCompletedResponseMessage p r i s = (res1, s1)"
    by (cases "sendCompletedResponseMessage p r i s")
  note fr = sendCompleted_cells[OF one]
  show ?case
  proof (cases res1)
    case (Inl e)
    with Cons.prems c one fr show ?thesis by simp
  next
    case (Inr u)
    with Cons.prems c one have "run_callbacks cs s1 = (res, s')" by simp
    from Cons.IH[OF this] fr show ?thesis by (blast intro: same_cells_trans)
  qed
qed

lemma run_callbacks_ops:
  assumes "run_callbacks cs s = (res, s')"
  shows "\<exists>ws. ops s' = ops s @ ws \<and> list_all is_server_write ws"
  using assms
proof (induction cs arbitrary: s)
  case Nil
  then show ?case by simp
next
  case (Cons c cs)
  obtain p r i where c: "c = SendResponse p r i" by (cases c)
  obtain res1 s1 where one: "sendCompletedResponseMessage p r i s = (res1, s1)"
    by (cases "sendCompletedResponseMessage p r i s")
  from sendCompleted_server_writes[OF one] obtain ws1
    where ws1: "ops s1 = ops s @ ws1" "list_all is_server_write ws1" by blast
  show ?case
  proof (cases res1)
    case (Inl e)
    with Cons.prems c one ws1 show ?thesis by auto
  next
    case (Inr u)
    with Cons.prems c one have "run_callbacks cs s1 = (res, s')" by simp
    from Cons.IH[OF this] obtain ws2
      where "ops s' = ops s1 @ ws2" "list_all is_server_write ws2" by blast
    with ws1 have "ops s' = ops s @ (ws1 @ ws2) \<and> list_all is_server_write (ws1 @ ws2)"
      by simp
    then show ?thesis by blast
  qed
qed

lemma run_callbacks_never_AlreadyCompleted:
  assumes "run_callbacks cs s = (res, s')"
  shows "res \<noteq> Inl AlreadyCompleted"
  using assms
proof (induction cs arbitrary: s)
  case Nil
  then show ?case by auto
next
  case (Cons c cs)
  obtain p r i where c: "c = SendResponse p r i" by (cases c)
  obtain res1 s1 where one: "sendCompletedResponseMessage p r i s = (res1, s1)"
    by (cases "sendCompletedResponseMessage p r i s")
  have r1: "res1 \<noteq> Inl AlreadyCompleted"
    using one
    by (auto simp: sendCompletedResponseMessage_def Let_def split: if_splits option.splits)
  show ?case
  proof (cases res1)
    case (Inl e)
    with Cons.prems c one r1 show ?thesis by auto
  next
    case (Inr u)
    with Cons.prems c one have "run_callbacks cs s1 = (res, s')" by simp
    from Cons.IH[OF this] show ?thesis .
  qed
qed

lemma setError_frame:
  assumes "setError r what s = (res, s')"
  shows "connectedPipes s' = connectedPipes s \<and> nextMessageID s' = nextMessageID s \<and>
    threadPool s' = threadPool s \<and> connected s' = connected s \<and>
    rpcAgentRunning s' = rpcAgentRunning s \<and> nextFuture s' = nextFuture s \<and>
    workerNameToURL s' = workerNameToURL s \<and> selfInfo s' = selfInfo s"
  using assms
  by (auto simp: setError_def split: option.splits if_splits dest!: run_callbacks_frame)

lemma markCompleted_frame:
  assumes "markCompleted r v s = (res, s')"
  shows "connectedPipes s' = connectedPipes s \<and> nextMessageID s' = nextMessageID s \<and>
    threadPool s' = threadPool s \<and> connected s' = connected s \<and>
    rpcAgentRunning s' = rpcAgentRunning s \<and> nextFuture s' = nextFuture s \<and>
    workerNameToURL s' = workerNameToURL s \<and> selfInfo s' = selfInfo s"
  using assms
  by (auto simp: markCompleted_def split: option.splits if_splits dest!: run_callbacks_frame)

lemma setError_ops:
  assumes "setError r what s = (res, s')"
  shows "\<exists>ws. ops s' = ops s @ ws \<and> list_all is_server_write ws"
  using assms
  by (auto simp: setError_def split: option.splits if_splits dest!: run_callbacks_ops)

lemma markCompleted_ops:
  assumes "markCompleted r v s = (res, s')"
  shows "\<exists>ws. ops s' = ops s @ ws \<and> list_all is_server_write ws"
  using assms
  by (auto simp: markCompleted_def split: option.splits if_splits dest!: run_callbacks_ops)

lemma setError_pending:
  assumes "pending s r" and "setError r what s = (res, s')"
  shows "failed_with s' r what \<and> res \<noteq> Inl AlreadyCompleted"
proof -
  from assms(1) obtain f where f: "map_of (futures s) r = Some f" "\<not> f_completed f"
    by (auto simp: pending_def split: option.splits)
  let ?s1 = "s\<lparr>futures := AList.update r
                 (f\<lparr>f_completed := True, f_error := Some what, f_callbacks := []\<rparr>) (futures s)\<rparr>"
  from assms(2) f have run: "run_callbacks (f_callbacks f) ?s1 = (res, s')"
    by (simp add: setError_def)
  have "failed_with ?s1 r what"
    by (simp add: failed_with_def update_conv')
  moreover from run_callbacks_cells[OF run] have "same_cells ?s1 s'" .
  ultimately have "failed_with s' r what"
    unfolding same_cells_def failed_with_def
    by (auto split: option.splits elim!: allE[where x=r] simp: option_rel_Some1)
  with run_callbacks_never_AlreadyCompleted[OF run] show ?thesis by simp
qed

lemma setError_completed:
  assumes "map_of (futures s) r = Some f" "f_completed f"
  shows "setError r what s = (Inl AlreadyCompleted, s)"
  using assms by (simp add: setError_def)

lemma awaiting_pending: "awaiting s r \<Longrightarrow> pending s r"
  by (auto simp: awaiting_def pending_def split: option.splits)

lemma setError_awaiting:
  assumes "awaiting s r"
  shows "setError r what s =
    (Inr (), s\<lparr>futures := AList.update r
       ((the (map_of (futures s) r))\<lparr>f_completed := True, f_error := Some what, f_callbacks := []\<rparr>)
       (futures s)\<rparr>)"
  using assms by (auto simp: awaiting_def setError_def split: option.splits)

lemma markCompleted_awaiting:
  assumes "awaiting s r"
  shows "markCompleted r v s =
    (Inr (), s\<lparr>futures := AList.update r
       ((the (map_of (futures s) r))\<lparr>f_completed := True, f_value := v, f_callbacks := []\<rparr>)
       (futures s)\<rparr>)"
  using assms by (auto simp: awaiting_def markCompleted_def split: option.splits)

subsection \<open>Rejected sends\<close>

text \<open>
  C6: a call of \<^verbatim>\<open>send\<close> with a message that is not a request, or on an agent that is
  not running, throws at once (for a request on a stopped agent, the runtime error whose
  text ends in "but RPC is no longer running on this node."), and leaves the whole agent
  state as it was: no connection is looked up or opened, no pending table is touched and
  no operation is handed to the transport.
\<close>

theorem send_rejected_before_any_effect:
  assumes "\<not> isRequest requestMessage \<or> \<not> rpcAgentRunning s"
  shows "send toWorkerInfo requestMessage s =
    (Inl (if \<not> isRequest requestMessage
          then TorchCheck [S ''TensorPipeAgent::send(..) is only for sending requests.'']
          else RuntimeError
                 [S ''Node '', I (workerId (selfInfo s)),
                  S ''tried to send() a message of type '', T (msg_type requestMessage),
                  S '' but RPC is no longer running on this node.'']), s)"
  using assms by (auto simp: send_def)

theorem send_rejected_before_any_effect_witness:
  "\<not> rpcAgentRunning (stop A0) \<and>
   send B req (stop A0) =
    (Inl (RuntimeError
           [S ''Node '', I 0,
            S ''tried to send() a message of type '', T REQUEST,
            S '' but RPC is no longer running on this node.'']), stop A0)"
proof -
  have h: "\<not> isRequest req \<or> \<not> rpcAgentRunning (stop A0)"
    by (simp add: stop_def)
  have a: "isRequest req" "workerId (selfInfo (stop A0)) = 0" "msg_type req = REQUEST"
    by (simp_all add: isRequest_def req_def stop_def A0_def start_def startImpl_def
          TensorPipeAgent_def Let_def)
  have n: "\<not> rpcAgentRunning (stop A0)"
    by (simp add: stop_def)
  from send_rejected_before_any_effect[OF h, of B] a n show ?thesis by simp
qed

subsection \<open>The write callback of send\<close>


lemma send_write_error_reads:
  assumes "send_write w r (Some what) s = (res, s')"
  shows "filter is_read (ops s') = filter is_read (ops s)"
proof -
  let ?s1 = "LOG_WARNING (''client write error: '' @ what) s"
  from assms have se: "setError r what ?s1 = (res, s')"
    by (simp add: send_write_def)
  from setError_ops[OF se] obtain ws
    where ws: "ops s' = ops ?s1 @ ws" "list_all is_server_write ws" by blast
  have "filter is_read ws = []"
    using ws(2)
    by (auto simp: filter_empty_conv list_all_iff is_server_write_def is_read_def
          split: op.splits)
  with ws(1) show ?thesis by (simp add: LOG_WARNING_def)
qed

lemma send_write_error_pending:
  assumes "pending s r" and "send_write w r (Some what) s = (res, s')"
  shows "failed_with s' r what \<and> res \<noteq> Inl AlreadyCompleted"
proof -
  let ?s1 = "LOG_WARNING (''client write error: '' @ what) s"
  from assms(2) have se: "setError r what ?s1 = (res, s')"
    by (simp add: send_write_def)
  from assms(1) have "pending ?s1 r"
    by (simp add: pending_def LOG_WARNING_def)
  from setError_pending[OF this se] show ?thesis .
qed

lemma send_write_error_not_pending:
  assumes "\<not> pending s r" and "send_write w r (Some what) s = (res, s')"
  shows "res = Inl AlreadyCompleted \<or> res = Inl NullPointer"
  using assms
  by (auto simp: send_write_def setError_def pending_def LOG_WARNING_def
        split: option.splits if_splits)

subsection \<open>The read callback of send and its task\<close>

lemma complete_task_awaiting:
  assumes "awaiting s r"
  shows "\<exists>s'. complete_task r m s = (Inr (), s') \<and>
     (if msg_type m = EXCEPTION
      then failed_with s' r (payload m) \<and> (\<forall>v. \<not> succeeded_with s' r v)
      else succeeded_with s' r m)"
  using assms
  by (auto simp: complete_task_def setError_awaiting markCompleted_awaiting failed_with_def
        succeeded_with_def update_conv' awaiting_def split: option.splits)

text \<open>
  C4: when a read on the connection to worker \<open>w\<close> delivers a response whose message id
  is in the pending table (and the connection is not marked errored), the read callback
  takes the handle out of the table and queues one task for it; when that task runs on a
  handle that is still awaited, a response of kind exception completes the handle with an
  error whose text is the payload of the response, and never as a success; any other
  response completes the handle with the response as its value.
\<close>

theorem response_completes_matching_handle:
  assumes "map_of (connectedPipes s) w = Some cp" and "\<not> readError cp"
    and "map_of (pendingResponseMessage cp) (msg_id m) = Some r"
    and "awaiting s2 r"
  shows "(\<exists>s1. send_read w None m s = (Inr (), s1) \<and>
            threadPool s1 = threadPool s @ [CompleteTask r m] \<and>
            (\<forall>r'. \<not> registered s1 w (msg_id m) r')) \<and>
         (\<exists>s3. complete_task r m s2 = (Inr (), s3) \<and>
            (if msg_type m = EXCEPTION
             then failed_with s3 r (payload m) \<and> (\<forall>v. \<not> succeeded_with s3 r v)
             else succeeded_with s3 r m))"
proof -
  have "\<exists>s1. send_read w None m s = (Inr (), s1) \<and>
            threadPool s1 = threadPool s @ [CompleteTask r m] \<and>
            (\<forall>r'. \<not> registered s1 w (msg_id m) r')"
    using assms(1-3)
    by (simp add: send_read_def Let_def update_pipe_def registered_def map_of_map_entry
          delete_conv')
  with complete_task_awaiting[OF assms(4)] show ?thesis by blast
qed

theorem response_completes_matching_handle_witness:
  "map_of (connectedPipes A1) 1 =
     Some \<lparr>cp_pipe = 0, readError = False, pendingResponseMessage = [(0, 0)]\<rparr> \<and>
   awaiting A1 0 \<and>
   (\<exists>s3. complete_task 0 boom A1 = (Inr (), s3) \<and> failed_with s3 0 ''boom'' \<and>
      (\<forall>v. \<not> succeeded_with s3 0 v)) \<and>
   (\<exists>s3. complete_task 0 pong A1 = (Inr (), s3) \<and> succeeded_with s3 0 pong)"
proof -
  let ?cp = "\<lparr>cp_pipe = 0, readError = False, pendingResponseMessage = [(0, 0)]\<rparr>"
  have c: "map_of (connectedPipes A1) 1 = Some ?cp" by code_simp
  have n: "\<not> readError ?cp" by simp
  have t1: "map_of (pendingResponseMessage ?cp) (msg_id boom) = Some 0"
    by (simp add: boom_def)
  have t2: "map_of (pendingResponseMessage ?cp) (msg_id pong) = Some 0"
    by (simp add: pong_def)
  have a: "awaiting A1 0" by code_simp
  have k: "msg_type boom = EXCEPTION" "payload boom = ''boom''" "msg_type pong \<noteq> EXCEPTION"
    by (simp_all add: boom_def pong_def)
  from response_completes_matching_handle[OF c n t1 a]
       response_completes_matching_handle[OF c n t2 a] k c a
  show ?thesis by simp
qed



subsection \<open>The read path\<close>

lemma fill_fold:
  "k \<le> length ts \<Longrightarrow>
   fold (\<lambda>i ts. ts[i := (ts ! i)\<lparr>tt_data := Some (TensorData i)\<rparr>]) [0 ..< k] ts =
   map (\<lambda>(i, t). t\<lparr>tt_data := Some (TensorData i)\<rparr>) (enumerate 0 (take k ts)) @ drop k ts"
proof (induction k)
  case 0
  then show ?case by simp
next
  case (Suc k)
  then have k: "k < length ts" by simp
  let ?f = "\<lambda>(i, t). t\<lparr>tt_data := Some (TensorData i)\<rparr>"
  let ?pre = "map ?f (enumerate 0 (take k ts))"
  have len: "length ?pre = k" using k by simp
  have "fold (\<lambda>i ts. ts[i := (ts ! i)\<lparr>tt_data := Some (TensorData i)\<rparr>]) [0 ..< Suc k] ts
        = (?pre @ drop k ts)[k := ((?pre @ drop k ts) ! k)\<lparr>tt_data := Some (TensorData k)\<rparr>]"
    using Suc by simp
  also have "\<dots> = ?pre @ ((drop k ts)[0 := (ts ! k)\<lparr>tt_data := Some (TensorData k)\<rparr>])"
    using k len by (simp add: list_update_append nth_append)
  also have "drop k ts = ts ! k # drop (Suc k) ts"
    using k by (simp add: Cons_nth_drop_Suc)
  also have "?pre @ (ts ! k # drop (Suc k) ts)[0 := (ts ! k)\<lparr>tt_data := Some (TensorData k)\<rparr>]
       = map ?f (enumerate 0 (take (Suc k) ts)) @ drop (Suc k) ts"
    using k by (simp add: take_Suc_conv_app_nth enumerate_append_eq)
  finally show ?case .
qed

lemma fill_tensor_pointers_eq:
  assumes "length (tensors rpcMessage) = length ts"
  shows "fill_tensor_pointers rpcMessage ts =
     map (\<lambda>(i, t). t\<lparr>tt_data := Some (TensorData i)\<rparr>) (enumerate 0 ts)"
  using fill_fold[of "length ts" ts] assms by (simp add: fill_tensor_pointers_def)

text \<open>
  C9: on a descriptor, the read path allocates the rpc Message; when the number of its
  tensors differs from the number the descriptor reports, it stops on the internal
  assertion "Tensor num mismatch" and hands nothing to the transport; otherwise it points
  the payload of the transport's message at the payload buffer and its \<open>i\<close>-th tensor at
  the storage of the \<open>i\<close>-th allocated tensor, and only then issues the read, which holds
  the allocated Message until its callback fires; that callback hands this Message to the
  continuation.
\<close>

theorem descriptor_allocates_then_reads:
  "pipeRead_descriptor allocate p fn None d s =
     (if length (tensors (allocate d)) \<noteq> length (tp_tensors d)
      then (Inl (InternalAssert [S ''Tensor num mismatch'']), s)
      else (Inr (),
            s\<lparr>ops := ops s @
                 [Read p
                    (d\<lparr>tp_data := Some PayloadData,
                       tp_tensors := map (\<lambda>(i, t). t\<lparr>tt_data := Some (TensorData i)\<rparr>)
                                       (enumerate 0 (tp_tensors d))\<rparr>)
                    fn (allocate d)]\<rparr>)) \<and>
   pipeRead_read fn (allocate d) error s' = invoke_read_fn fn error (allocate d) s'"
  by (simp add: pipeRead_descriptor_def pipeRead_read_def Let_def fill_tensor_pointers_eq)

subsection \<open>The server loop\<close>

lemma sendCompleted_count:
  assumes "sendCompletedResponseMessage p r i s = (res, s')"
    and "map_of (futures s) r = Some f"
  shows "\<exists>ws. ops s' = ops s @ ws \<and> list_all (is_response_to i p) ws \<and>
           (if rpcAgentRunning s then length ws = 1 else ws = [])"
  using assms
  by (auto simp: sendCompletedResponseMessage_def pipeWrite_def Let_def LOG_WARNING_def
        is_response_to_def createExceptionResponse_def
           split: if_splits option.splits)

lemma respond_task_ops:
  assumes "respond_task cb p i m s = (res, s')"
  shows "\<exists>ws. ops s' = ops s @ ws \<and> list_all (is_response_to i p) ws \<and>
            (if cb = ReturnsPending then ws = [] \<and> deferred s' (nextFuture s) p i
             else if rpcAgentRunning s then length ws = 1 else ws = [])"
proof (cases cb)
  case (Throws what)
  let ?s1 = "snd (make_shared s)"
  have aw: "awaiting ?s1 (nextFuture s)"
    by (simp add: make_shared_def awaiting_def update_conv' new_FutureMessage_def)
  obtain s2 where s2: "setError (nextFuture s) what ?s1 = (Inr (), s2)"
     "map_of (futures s2) (nextFuture s) =
        Some (new_FutureMessage\<lparr>f_completed := True, f_error := Some what, f_callbacks := []\<rparr>)"
     "ops s2 = ops s" "rpcAgentRunning s2 = rpcAgentRunning s"
    using setError_awaiting[OF aw, of what]
    by (simp add: make_shared_def update_conv')
  from assms Throws s2 have "sendCompletedResponseMessage p (nextFuture s) i s2 = (res, s')"
    by (simp add: respond_task_def make_shared_def new_FutureMessage_def)
  from sendCompleted_count[OF this s2(2)] s2(3,4) Throws show ?thesis by simp
next
  case ReturnsPending
  with assms show ?thesis
    by (auto simp: respond_task_def make_shared_def update_conv' new_FutureMessage_def
          addCallback_def deferred_def)
next
  case (ReturnsValue v)
  let ?s2 = "(snd (make_shared s))\<lparr>futures :=
       AList.update (nextFuture s) (returned_future cb) (futures (snd (make_shared s)))\<rparr>"
  have f: "map_of (futures ?s2) (nextFuture s) = Some (returned_future cb)"
    by (simp add: update_conv')
  from assms ReturnsValue
  have "sendCompletedResponseMessage p (nextFuture s) i ?s2 = (res, s')"
    by (simp add: respond_task_def make_shared_def update_conv' new_FutureMessage_def)
  from sendCompleted_count[OF this f] ReturnsValue show ?thesis
    by (simp add: make_shared_def)
next
  case (ReturnsError what)
  let ?s2 = "(snd (make_shared s))\<lparr>futures :=
       AList.update (nextFuture s) (returned_future cb) (futures (snd (make_shared s)))\<rparr>"
  have f: "map_of (futures ?s2) (nextFuture s) = Some (returned_future cb)"
    by (simp add: update_conv')
  from assms ReturnsError
  have "sendCompletedResponseMessage p (nextFuture s) i ?s2 = (res, s')"
    by (simp add: respond_task_def make_shared_def update_conv' new_FutureMessage_def)
  from sendCompleted_count[OF this f] ReturnsError show ?thesis
    by (simp add: make_shared_def)
qed

lemma run_deferred:
  assumes "run_callbacks [SendResponse p r i] s = (res, s')"
    and "map_of (futures s) r = Some f"
  shows "\<exists>ws. ops s' = ops s @ ws \<and> list_all (is_response_to i p) ws \<and>
           (if rpcAgentRunning s then length ws = 1 else ws = [])"
proof -
  obtain res1 s1 where one: "sendCompletedResponseMessage p r i s = (res1, s1)"
    by (cases "sendCompletedResponseMessage p r i s")
  with assms have "s' = s1" by (cases res1) auto
  with sendCompleted_count[OF one assms(2)] show ?thesis by simp
qed

lemma deferred_markCompleted:
  assumes "deferred s r p i" and "markCompleted r v s = (res, s')"
  shows "\<exists>ws. ops s' = ops s @ ws \<and> list_all (is_response_to i p) ws \<and>
           (if rpcAgentRunning s then length ws = 1 else ws = [])"
proof -
  from assms(1) obtain f where f: "map_of (futures s) r = Some f" "\<not> f_completed f"
      "f_callbacks f = [SendResponse p r i]"
    by (auto simp: deferred_def split: option.splits)
  let ?s1 = "s\<lparr>futures := AList.update r (f\<lparr>f_completed := True, f_value := v, f_callbacks := []\<rparr>)
                       (futures s)\<rparr>"
  from f assms(2) have run: "run_callbacks [SendResponse p r i] ?s1 = (res, s')"
    by (simp add: markCompleted_def)
  have "map_of (futures ?s1) r = Some (f\<lparr>f_completed := True, f_value := v, f_callbacks := []\<rparr>)"
    by (simp add: update_conv')
  from run_deferred[OF run this] show ?thesis by simp
qed

lemma deferred_setError:
  assumes "deferred s r p i" and "setError r what s = (res, s')"
  shows "\<exists>ws. ops s' = ops s @ ws \<and> list_all (is_response_to i p) ws \<and>
           (if rpcAgentRunning s then length ws = 1 else ws = [])"
proof -
  from assms(1) obtain f where f: "map_of (futures s) r = Some f" "\<not> f_completed f"
      "f_callbacks f = [SendResponse p r i]"
    by (auto simp: deferred_def split: option.splits)
  let ?s1 = "s\<lparr>futures := AList.update r (f\<lparr>f_completed := True, f_error := Some what, f_callbacks := []\<rparr>)
                       (futures s)\<rparr>"
  from f assms(2) have run: "run_callbacks [SendResponse p r i] ?s1 = (res, s')"
    by (simp add: setError_def)
  have "map_of (futures ?s1) r = Some (f\<lparr>f_completed := True, f_error := Some what, f_callbacks := []\<rparr>)"
    by (simp add: update_conv')
  from run_deferred[OF run this] show ?thesis by simp
qed

text \<open>
  C3: the read callback of the server loop queues each request with its own message id.
  Every write that the task of a request issues, at once or later through the callback
  it registers on a future that is still pending, is a write on the pipe of the request
  whose Message (a response or a synthesized exception response) and whose descriptor
  carry the message id of that request; on a running agent there is exactly one such
  write once the future is complete, and none when the agent has been told to stop.
\<close>

theorem responses_echo_request_id:
  assumes "respond_task cb p (msg_id requestMessage) requestMessage s = (res, s')"
  shows "threadPool (respond_read p None requestMessage s0) =
           threadPool s0 @ [RespondTask p (msg_id requestMessage) requestMessage] \<and>
         (\<exists>ws. ops s' = ops s @ ws \<and> list_all (is_response_to (msg_id requestMessage) p) ws \<and>
            (if cb = ReturnsPending
             then ws = [] \<and> deferred s' (nextFuture s) p (msg_id requestMessage)
             else if rpcAgentRunning s then length ws = 1 else ws = [])) \<and>
         (\<forall>s2 r v. deferred s2 r p (msg_id requestMessage) \<longrightarrow>
            (\<exists>ws. ops (snd (markCompleted r v s2)) = ops s2 @ ws \<and>
                  list_all (is_response_to (msg_id requestMessage) p) ws \<and>
                  (if rpcAgentRunning s2 then length ws = 1 else ws = []))) \<and>
         (\<forall>s2 r what. deferred s2 r p (msg_id requestMessage) \<longrightarrow>
            (\<exists>ws. ops (snd (setError r what s2)) = ops s2 @ ws \<and>
                  list_all (is_response_to (msg_id requestMessage) p) ws \<and>
                  (if rpcAgentRunning s2 then length ws = 1 else ws = [])))"
proof -
  have a: "threadPool (respond_read p None requestMessage s0) =
           threadPool s0 @ [RespondTask p (msg_id requestMessage) requestMessage]"
    by (simp add: respond_read_def respond_def pipeRead_def Let_def)
  have b: "\<exists>ws. ops (snd (markCompleted r v s2)) = ops s2 @ ws \<and>
                  list_all (is_response_to (msg_id requestMessage) p) ws \<and>
                  (if rpcAgentRunning s2 then length ws = 1 else ws = [])"
    if "deferred s2 r p (msg_id requestMessage)" for s2 r v
    using deferred_markCompleted[OF that, of v "fst (markCompleted r v s2)" "snd (markCompleted r v s2)"]
    by simp
  have c: "\<exists>ws. ops (snd (setError r what s2)) = ops s2 @ ws \<and>
                  list_all (is_response_to (msg_id requestMessage) p) ws \<and>
                  (if rpcAgentRunning s2 then length ws = 1 else ws = [])"
    if "deferred s2 r p (msg_id requestMessage)" for s2 r what
    using deferred_setError[OF that, of what "fst (setError r what s2)" "snd (setError r what s2)"]
    by simp
  from respond_task_ops[OF assms] a b c show ?thesis by blast
qed

theorem responses_echo_request_id_witness:
  "deferred (snd (respond_task ReturnsPending 3 5 req5 A0)) 0 3 5 \<and>
   (\<exists>ws. ops (snd (markCompleted 0 pong (snd (respond_task ReturnsPending 3 5 req5 A0)))) =
            ops (snd (respond_task ReturnsPending 3 5 req5 A0)) @ ws \<and>
         list_all (is_response_to 5 3) ws \<and> length ws = 1)"
proof -
  let ?s1 = "snd (respond_task ReturnsPending 3 5 req5 A0)"
  have i: "msg_id req5 = 5" by (simp add: req5_def)
  have e: "respond_task ReturnsPending 3 (msg_id req5) req5 A0 =
     (fst (respond_task ReturnsPending 3 5 req5 A0), ?s1)"
    by (simp add: i)
  have d: "deferred ?s1 0 3 5" by code_simp
  have r: "rpcAgentRunning ?s1" by code_simp
  from responses_echo_request_id[OF e, unfolded i]
  have "\<forall>s2 r v. deferred s2 r 3 5 \<longrightarrow>
            (\<exists>ws. ops (snd (markCompleted r v s2)) = ops s2 @ ws \<and>
                  list_all (is_response_to 5 3) ws \<and>
                  (if rpcAgentRunning s2 then length ws = 1 else ws = []))"
    by blast
  with d have "\<exists>ws. ops (snd (markCompleted 0 pong ?s1)) = ops ?s1 @ ws \<and>
                  list_all (is_response_to 5 3) ws \<and>
                  (if rpcAgentRunning ?s1 then length ws = 1 else ws = [])"
    by blast
  with r have "\<exists>ws. ops (snd (markCompleted 0 pong ?s1)) = ops ?s1 @ ws \<and>
                  list_all (is_response_to 5 3) ws \<and> length ws = 1"
    by simp
  with d show ?thesis by blast
qed

subsection \<open>Failure of a connection\<close>

lemma flush_frame:
  assumes "flush ps what s = (res, s')"
  shows "connectedPipes s' = connectedPipes s \<and> nextMessageID s' = nextMessageID s \<and>
    threadPool s' = threadPool s \<and> connected s' = connected s \<and>
    rpcAgentRunning s' = rpcAgentRunning s \<and> nextFuture s' = nextFuture s \<and>
    workerNameToURL s' = workerNameToURL s \<and> selfInfo s' = selfInfo s"
  using assms
proof (induction ps arbitrary: s)
  case Nil
  then show ?case by simp
next
  case (Cons p ps)
  obtain res1 s1 where one: "setError (snd p) what s = (res1, s1)"
    by (cases "setError (snd p) what s")
  note fr = setError_frame[OF one]
  show ?case
  proof (cases res1)
    case (Inl e)
    with Cons.prems one fr show ?thesis by simp
  next
    case (Inr u)
    with Cons.prems one have "flush ps what s1 = (res, s')" by simp
    from Cons.IH[OF this] fr show ?thesis by simp
  qed
qed

lemma flush_ops:
  assumes "flush ps what s = (res, s')"
  shows "\<exists>ws. ops s' = ops s @ ws \<and> list_all is_server_write ws"
  using assms
proof (induction ps arbitrary: s)
  case Nil
  then show ?case by simp
next
  case (Cons p ps)
  obtain res1 s1 where one: "setError (snd p) what s = (res1, s1)"
    by (cases "setError (snd p) what s")
  from setError_ops[OF one] obtain ws1
    where ws1: "ops s1 = ops s @ ws1" "list_all is_server_write ws1" by blast
  show ?case
  proof (cases res1)
    case (Inl e)
    with Cons.prems one ws1 show ?thesis by auto
  next
    case (Inr u)
    with Cons.prems one have "flush ps what s1 = (res, s')" by simp
    from Cons.IH[OF this] obtain ws2
      where "ops s' = ops s1 @ ws2" "list_all is_server_write ws2" by blast
    with ws1 have "ops s' = ops s @ (ws1 @ ws2) \<and> list_all is_server_write (ws1 @ ws2)"
      by simp
    then show ?thesis by blast
  qed
qed

lemma flush_awaited:
  assumes "\<forall>r \<in> snd ` set ps. awaiting s r" and "distinct (map snd ps)"
  shows "\<exists>s'. flush ps what s = (Inr (), s') \<and>
           (\<forall>r \<in> snd ` set ps. failed_with s' r what) \<and>
           (\<forall>r. r \<notin> snd ` set ps \<longrightarrow> map_of (futures s') r = map_of (futures s) r)"
  using assms
proof (induction ps arbitrary: s)
  case Nil
  then show ?case by simp
next
  case (Cons p ps)
  let ?r = "snd p"
  let ?s1 = "s\<lparr>futures := AList.update ?r
       ((the (map_of (futures s) ?r))\<lparr>f_completed := True, f_error := Some what, f_callbacks := []\<rparr>)
       (futures s)\<rparr>"
  from Cons.prems have aw: "awaiting s ?r" by simp
  have one: "setError ?r what s = (Inr (), ?s1)"
    by (rule setError_awaiting[OF aw])
  from Cons.prems have notin: "?r \<notin> snd ` set ps" by auto
  have other: "map_of (futures ?s1) r = map_of (futures s) r" if "r \<noteq> ?r" for r
    using that by (simp add: update_conv')
  have "\<forall>r \<in> snd ` set ps. awaiting ?s1 r"
  proof
    fix r assume r: "r \<in> snd ` set ps"
    with notin have "r \<noteq> ?r" by blast
    from other[OF this] have eq: "map_of (futures ?s1) r = map_of (futures s) r" .
    from Cons.prems(1) r have "awaiting s r" by auto
    with eq show "awaiting ?s1 r"
      unfolding awaiting_def by simp
  qed
  moreover from Cons.prems have "distinct (map snd ps)" by simp
  ultimately obtain s' where s': "flush ps what ?s1 = (Inr (), s')"
      "\<forall>r \<in> snd ` set ps. failed_with s' r what"
      "\<forall>r. r \<notin> snd ` set ps \<longrightarrow> map_of (futures s') r = map_of (futures ?s1) r"
    using Cons.IH[of ?s1] by blast
  have fl: "flush (p # ps) what s = (Inr (), s')"
    using one s'(1) by simp
  have "failed_with ?s1 ?r what"
    by (simp add: failed_with_def update_conv')
  with s'(3) notin have "failed_with s' ?r what"
    by (simp add: failed_with_def)
  with s'(2) have all: "\<forall>r \<in> snd ` set (p # ps). failed_with s' r what" by simp
  have "\<forall>r. r \<notin> snd ` set (p # ps) \<longrightarrow> map_of (futures s') r = map_of (futures s) r"
    using s'(3) other by auto
  with fl all show ?case by blast
qed

text \<open>
  When every handle in the pending table of a connection is still awaited (and no handle
  is registered twice), a read error completes each of them with that error, empties the
  table and sets the errored flag.
\<close>

lemma read_error_flushes_awaited_handles:
  assumes "map_of (connectedPipes s) w = Some cp"
    and "\<forall>r \<in> snd ` set (pendingResponseMessage cp). awaiting s r"
    and "distinct (map snd (pendingResponseMessage cp))"
  shows "\<exists>s'. send_read w (Some what) m s = (Inr (), s') \<and>
           (\<forall>r \<in> snd ` set (pendingResponseMessage cp). failed_with s' r what) \<and>
           map_of (connectedPipes s') w =
             Some (cp\<lparr>pendingResponseMessage := [], readError := True\<rparr>)"
proof -
  let ?s1 = "LOG_WARNING (''Read response error: '' @ what) s"
  from assms(2) have "\<forall>r \<in> snd ` set (pendingResponseMessage cp). awaiting ?s1 r"
    by (simp add: awaiting_def LOG_WARNING_def)
  from flush_awaited[OF this assms(3), of what] obtain s2
    where s2: "flush (pendingResponseMessage cp) what ?s1 = (Inr (), s2)"
      "\<forall>r \<in> snd ` set (pendingResponseMessage cp). failed_with s2 r what"
    by blast
  from flush_frame[OF s2(1)] have cps: "connectedPipes s2 = connectedPipes s"
    by (simp add: LOG_WARNING_def)
  let ?s3 = "update_pipe w (\<lambda>cp. cp\<lparr>readError := True\<rparr>)
               (update_pipe w (\<lambda>cp. cp\<lparr>pendingResponseMessage := []\<rparr>) s2)"
  have "send_read w (Some what) m s = (Inr (), ?s3)"
    using assms(1) s2(1) by (simp add: send_read_def)
  moreover have "\<forall>r \<in> snd ` set (pendingResponseMessage cp). failed_with ?s3 r what"
    using s2(2) by (simp add: failed_with_def update_pipe_def)
  moreover have "map_of (connectedPipes ?s3) w =
             Some (cp\<lparr>pendingResponseMessage := [], readError := True\<rparr>)"
    using assms(1) cps by (simp add: update_pipe_def map_of_map_entry)
  ultimately show ?thesis by blast
qed

text \<open>
  C1: a read error on a connection is to complete every handle registered in its pending
  table with that error, empty the table and set the errored flag. On the run
  \<open>write_fails_then_read_fails\<close> the code does not: before the read error the table of the
  connection to B holds the first handle, pending, and the second handle, which the write
  callback completed with the write error and left in the table; on the read error the
  loop calls \<^verbatim>\<open>setError\<close> on that second handle again, the second completion is refused,
  and the callback ends by that exception with both entries still in the table and the
  errored flag not set.
\<close>

theorem read_error_flush_refused:
  "(case exec (butlast write_fails_then_read_fails) A0 of
      Some (Inr _, s) \<Rightarrow>
        registered s 1 0 0 \<and> pending s 0 \<and> registered s 1 1 1 \<and>
        failed_with s 1 ''broken pipe'' \<and> ops s = [Accept, ReadDescriptor 0 (SendRead 1)]
    | _ \<Rightarrow> False) \<and>
   (case exec write_fails_then_read_fails A0 of
      Some (Inl AlreadyCompleted, s) \<Rightarrow>
        registered s 1 0 0 \<and> registered s 1 1 1 \<and> failed_with s 1 ''broken pipe'' \<and>
        map (\<lambda>(w, cp). (w, readError cp)) (connectedPipes s) = [(1, False)]
    | _ \<Rightarrow> False)"
  by code_simp

text \<open>
  The run \<open>severed_with_two_pending\<close>: after the read error both handles hold the transport
  error, and the connection to B stays in the registry, marked errored. The send that
  follows opens no connection (the only connection ever opened is the first one): it
  registers its handle in the table of the errored connection and writes on its pipe.
\<close>

theorem send_after_read_error_counterexample:
  "(case exec severed_with_two_pending A0 of
      Some (Inr _, s) \<Rightarrow>
        failed_with s 0 ''eof'' \<and> failed_with s 1 ''eof'' \<and> connected s = [''tcp://B''] \<and>
        connectedPipes s =
          [(1, \<lparr>cp_pipe = 0, readError = True, pendingResponseMessage = []\<rparr>)]
    | _ \<Rightarrow> False) \<and>
   (case exec (severed_with_two_pending @ [CallSend B req]) A0 of
      Some (Inr _, s) \<Rightarrow>
        connected s = [''tcp://B''] \<and>
        connectedPipes s =
          [(1, \<lparr>cp_pipe = 0, readError = True, pendingResponseMessage = [(2, 2)]\<rparr>)] \<and>
        last (ops s) =
          Write 0 (tensorpipeSerialize (req\<lparr>msg_id := 2\<rparr>)) (req\<lparr>msg_id := 2\<rparr>)
            (SendWritten 1 2)
    | _ \<Rightarrow> False)"
  by code_simp

lemma send_reuses_connection:
  assumes "map_of (connectedPipes s) (workerId to) = Some cp"
    and "isRequest requestMessage" and "rpcAgentRunning s"
    and "map_of (workerNameToURL s) (workerName to) = Some url"
  shows "send to requestMessage s =
    (Inr (nextFuture s),
     s\<lparr>connectedPipes :=
         AList.map_entry (workerId to)
           (\<lambda>cp. cp\<lparr>pendingResponseMessage :=
                      AList.update (nextMessageID s) (nextFuture s)
                        (pendingResponseMessage cp)\<rparr>) (connectedPipes s),
       nextMessageID := nextMessageID s + 1,
       futures := AList.update (nextFuture s) new_FutureMessage (futures s),
       nextFuture := Suc (nextFuture s),
       ops := ops s @
         [Write (cp_pipe cp) (tensorpipeSerialize (requestMessage\<lparr>msg_id := nextMessageID s\<rparr>))
            (requestMessage\<lparr>msg_id := nextMessageID s\<rparr>)
            (SendWritten (workerId to) (nextFuture s))]\<rparr>)"
  using assms
  by (simp add: send_def findWorkerURL_def make_shared_def update_pipe_def pipeWrite_def
        map_of_map_entry Let_def)

text \<open>
  C2, as the code has it: after a read error on the connection to a worker (the flush
  having returned), a send of a request to that worker, on a running agent that knows
  the address of the worker, opens no new connection: it reuses the connection state
  marked errored, registers its handle there under the next message id, and issues its
  write on the same pipe.
\<close>

theorem send_after_read_error_reuses_connection:
  assumes "send_read (workerId to) (Some what) m s = (Inr (), s1)"
    and "isRequest requestMessage" and "rpcAgentRunning s1"
    and "map_of (workerNameToURL s1) (workerName to) = Some url"
  shows "\<exists>cp r s2.
           map_of (connectedPipes s) (workerId to) = Some cp \<and>
           send to requestMessage s1 = (Inr r, s2) \<and>
           connected s2 = connected s1 \<and>
           map_of (connectedPipes s2) (workerId to) =
             Some (cp\<lparr>readError := True,
                      pendingResponseMessage := [(nextMessageID s1, r)]\<rparr>) \<and>
           ops s2 = ops s1 @
             [Write (cp_pipe cp)
                (tensorpipeSerialize (requestMessage\<lparr>msg_id := nextMessageID s1\<rparr>))
                (requestMessage\<lparr>msg_id := nextMessageID s1\<rparr>)
                (SendWritten (workerId to) r)]"
proof -
  from assms(1) obtain cp where cp: "map_of (connectedPipes s) (workerId to) = Some cp"
    by (auto simp: send_read_def split: option.splits)
  let ?s0 = "LOG_WARNING (''Read response error: '' @ what) s"
  obtain res' s' where fl: "flush (pendingResponseMessage cp) what ?s0 = (res', s')"
    by (cases "flush (pendingResponseMessage cp) what ?s0")
  from assms(1) cp fl have s1: "s1 = update_pipe (workerId to) (\<lambda>cp. cp\<lparr>readError := True\<rparr>)
               (update_pipe (workerId to) (\<lambda>cp. cp\<lparr>pendingResponseMessage := []\<rparr>) s')"
    by (cases res') (auto simp: send_read_def)
  from flush_frame[OF fl] have "connectedPipes s' = connectedPipes s"
    by (simp add: LOG_WARNING_def)
  with cp s1 have cp1: "map_of (connectedPipes s1) (workerId to) =
      Some (cp\<lparr>pendingResponseMessage := [], readError := True\<rparr>)"
    by (simp add: update_pipe_def map_of_map_entry)
  from send_reuses_connection[OF cp1 assms(2-4)] cp cp1 show ?thesis
    by (simp add: map_of_map_entry)
qed

theorem send_after_read_error_reuses_connection_witness:
  "fst (send_read 1 (Some ''eof'') default_Message A1) = Inr () \<and>
   connected (snd (send B req A1_severed)) = connected A1_severed \<and>
   (\<exists>r. map_of (connectedPipes (snd (send B req A1_severed))) 1 =
      Some \<lparr>cp_pipe = 0, readError = True,
            pendingResponseMessage = [(nextMessageID A1_severed, r)]\<rparr>)"
proof -
  have f: "fst (send_read 1 (Some ''eof'') default_Message A1) = Inr ()" by code_simp
  have w: "workerId B = 1" "workerName B = ''B''" by (simp_all add: B_def)
  from f have h1: "send_read (workerId B) (Some ''eof'') default_Message A1 = (Inr (), A1_severed)"
    unfolding A1_severed_def w by (metis prod.collapse)
  have h2: "isRequest req" by code_simp
  have h3: "rpcAgentRunning A1_severed" by code_simp
  have h4: "map_of (workerNameToURL A1_severed) (workerName B) = Some ''tcp://B''" by code_simp
  have c: "map_of (connectedPipes A1) 1 =
     Some \<lparr>cp_pipe = 0, readError = False, pendingResponseMessage = [(0, 0)]\<rparr>"
    by code_simp
  from send_after_read_error_reuses_connection[OF h1 h2 h3 h4] obtain cp r s2
    where "map_of (connectedPipes A1) (workerId B) = Some cp"
      and "send B req A1_severed = (Inr r, s2)"
      and "connected s2 = connected A1_severed"
      and "map_of (connectedPipes s2) (workerId B) =
             Some (cp\<lparr>readError := True,
                      pendingResponseMessage := [(nextMessageID A1_severed, r)]\<rparr>)"
    by blast
  with c w f show ?thesis by auto
qed

subsection \<open>Runs of the agent\<close>

lemma calm_refl [simp]: "calm s s"
  by (simp add: calm_def)

lemma calm_trans: "calm s s' \<Longrightarrow> calm s' s'' \<Longrightarrow> calm s s''"
  by (fastforce simp: calm_def)

lemma server_writes_no_accept:
  "list_all is_server_write ws \<Longrightarrow> filter (\<lambda>x. x = Accept) ws = []"
  by (auto simp: filter_empty_conv list_all_iff is_server_write_def)

lemma calmI:
  assumes "connectedPipes s' = connectedPipes s" and "nextMessageID s' = nextMessageID s"
    and "\<exists>ws. ops s' = ops s @ ws \<and> list_all is_server_write ws"
  shows "calm s s'"
  using assms by (auto simp: calm_def ids_of_def accepts_def server_writes_no_accept)

lemma calm_same:
  assumes "connectedPipes s' = connectedPipes s" and "nextMessageID s' = nextMessageID s"
    and "ops s' = ops s"
  shows "calm s s'"
  using assms by (simp add: calm_def ids_of_def accepts_def)

lemma setError_calm: "setError r what s = (res, s') \<Longrightarrow> calm s s'"
  using setError_frame setError_ops by (blast intro: calmI)

lemma markCompleted_calm: "markCompleted r v s = (res, s') \<Longrightarrow> calm s s'"
  using markCompleted_frame markCompleted_ops by (blast intro: calmI)

lemma flush_calm: "flush ps what s = (res, s') \<Longrightarrow> calm s s'"
  using flush_frame flush_ops by (blast intro: calmI)

lemma complete_task_calm: "complete_task r m s = (res, s') \<Longrightarrow> calm s s'"
  by (auto simp: complete_task_def split: if_splits dest: setError_calm markCompleted_calm)

lemma LOG_WARNING_calm [simp]: "calm s (LOG_WARNING line s)"
  by (simp add: calm_def LOG_WARNING_def ids_of_def accepts_def)

lemma pipeRead_calm [simp]: "calm s (pipeRead p fn s)"
  by (simp add: calm_def pipeRead_def ids_of_def accepts_def)

lemma send_write_calm: "send_write w r error s = (res, s') \<Longrightarrow> calm s s'"
  by (auto simp: send_write_def split: option.splits
        dest!: setError_calm intro: calm_trans[OF LOG_WARNING_calm])

lemma respond_read_calm [simp]: "calm s (respond_read p error m s)"
  by (simp add: respond_read_def respond_def pipeRead_def calm_def LOG_WARNING_def
        ids_of_def accepts_def Let_def split: option.splits)

lemma ids_map_entry:
  "(case map_of (AList.map_entry w f cps) w' of
      None \<Rightarrow> {} | Some cp \<Rightarrow> fst ` set (pendingResponseMessage cp)) =
   (if w' = w
    then (case map_of cps w of
            None \<Rightarrow> {} | Some cp \<Rightarrow> fst ` set (pendingResponseMessage (f cp)))
    else (case map_of cps w' of
            None \<Rightarrow> {} | Some cp \<Rightarrow> fst ` set (pendingResponseMessage cp)))"
  by (simp add: map_of_map_entry split: option.splits)

lemma update_pipe_calm:
  assumes "\<And>cp. fst ` set (pendingResponseMessage (f cp)) \<subseteq> fst ` set (pendingResponseMessage cp)"
  shows "calm s (update_pipe w f s)"
  using assms
  by (auto simp: calm_def update_pipe_def ids_of_def ids_map_entry accepts_def
        split: option.splits)

lemma send_read_calm:
  assumes "send_read w error m s = (res, s')"
  shows "calm s s'"
proof (cases "map_of (connectedPipes s) w")
  case None
  with assms show ?thesis by (simp add: send_read_def)
next
  case (Some cp)
  show ?thesis
  proof (cases error)
    case (Some what)
    let ?s0 = "LOG_WARNING (''Read response error: '' @ what) s"
    obtain res1 s1 where fl: "flush (pendingResponseMessage cp) what ?s0 = (res1, s1)"
      by (cases "flush (pendingResponseMessage cp) what ?s0")
    from flush_calm[OF fl] have c1: "calm s s1"
      by (rule calm_trans[OF LOG_WARNING_calm])
    show ?thesis
    proof (cases res1)
      case (Inl e)
      with assms \<open>map_of (connectedPipes s) w = Some cp\<close> Some fl c1 show ?thesis
        by (simp add: send_read_def)
    next
      case (Inr u)
      with assms \<open>map_of (connectedPipes s) w = Some cp\<close> Some fl
      have s': "s' = update_pipe w (\<lambda>cp. cp\<lparr>readError := True\<rparr>)
                       (update_pipe w (\<lambda>cp. cp\<lparr>pendingResponseMessage := []\<rparr>) s1)"
        by (simp add: send_read_def)
      have "calm s1 s'"
        unfolding s' by (rule calm_trans[OF update_pipe_calm update_pipe_calm]) simp_all
      with c1 show ?thesis by (rule calm_trans)
    qed
  next
    case None
    let ?s1 = "update_pipe w (\<lambda>cp. cp\<lparr>pendingResponseMessage :=
                 AList.delete (msg_id m) (pendingResponseMessage cp)\<rparr>) s"
    have c1: "calm s ?s1"
      by (rule update_pipe_calm) (use dom_delete_subset in force)
    have c2: "calm ?s1 (?s1\<lparr>threadPool := tp\<rparr>)" for tp
      by (simp add: calm_def ids_of_def accepts_def)
    from assms Some None have "s' = s \<or> (\<exists>tp. s' = ?s1\<lparr>threadPool := tp\<rparr>)"
      by (auto simp: send_read_def Let_def split: if_splits option.splits)
    with c1 c2 show ?thesis by (auto intro: calm_trans)
  qed
qed

lemma sendCompleted_calm:
  assumes "sendCompletedResponseMessage p r i s = (res, s')"
  shows "calm s s'"
  by (rule calmI[OF sendCompleted_frame(1)[OF assms] sendCompleted_frame(2)[OF assms]
        sendCompleted_server_writes[OF assms]])

lemma futures_update_calm [simp]: "calm s (s\<lparr>futures := fs\<rparr>)"
  by (simp add: calm_def ids_of_def accepts_def)

lemma addCallback_calm: "addCallback r cb s = (res, s') \<Longrightarrow> calm s s'"
  by (cases cb)
     (auto simp: addCallback_def split: option.splits if_splits dest: sendCompleted_calm)

lemma make_shared_calm:
  "calm s (s\<lparr>futures := fs, nextFuture := n\<rparr>)"
  by (simp add: calm_def ids_of_def accepts_def)

lemma respond_task_calm:
  assumes "respond_task cb p i m s = (res, s')"
  shows "calm s s'"
proof -
  let ?r = "nextFuture s"
  let ?s1 = "s\<lparr>futures := AList.update ?r new_FutureMessage (futures s),
                 nextFuture := Suc ?r\<rparr>"
  have ms: "make_shared s = (?r, ?s1)" by (simp add: make_shared_def)
  obtain res2 s2 where mid:
    "(case cb of Throws what \<Rightarrow> setError ?r what ?s1
      | _ \<Rightarrow> (Inr (), ?s1\<lparr>futures := AList.update ?r (returned_future cb) (futures ?s1)\<rparr>))
     = (res2, s2)"
    by (cases "(case cb of Throws what \<Rightarrow> setError ?r what ?s1
      | _ \<Rightarrow> (Inr (), ?s1\<lparr>futures := AList.update ?r (returned_future cb) (futures ?s1)\<rparr>))")
  have "calm ?s1 s2"
  proof (cases cb)
    case (Throws what)
    with mid have "setError ?r what ?s1 = (res2, s2)" by simp
    then show ?thesis by (rule setError_calm)
  next
    case ReturnsPending
    with mid show ?thesis by (auto intro!: calm_same)
  next
    case (ReturnsValue v)
    with mid show ?thesis by (auto intro!: calm_same)
  next
    case (ReturnsError what)
    with mid show ?thesis by (auto intro!: calm_same)
  qed
  with make_shared_calm have c2: "calm s s2" by (rule calm_trans)
  show ?thesis
  proof (cases res2)
    case (Inl e)
    with assms mid c2 show ?thesis by (simp add: respond_task_def make_shared_def)
  next
    case (Inr u)
    with assms mid have "calm s2 s'"
      by (auto simp: respond_task_def make_shared_def split: option.splits if_splits
            dest: sendCompleted_calm addCallback_calm)
    with c2 show ?thesis by (rule calm_trans)
  qed
qed

lemma invoke_read_fn_calm: "invoke_read_fn fn error m s = (res, s') \<Longrightarrow> calm s s'"
  by (cases fn) (auto simp: invoke_read_fn_def dest: send_read_calm)

lemma invoke_write_fn_calm: "invoke_write_fn fn error s = (res, s') \<Longrightarrow> calm s s'"
  by (cases fn) (auto simp: invoke_write_fn_def split: option.splits dest: send_write_calm)

lemma pipeRead_descriptor_calm:
  assumes "pipeRead_descriptor allocate p fn error d s = (res, s')"
  shows "calm s s'"
proof (cases error)
  case (Some what)
  with assms have "invoke_read_fn fn (Some what) default_Message s = (res, s')"
    by (simp add: pipeRead_descriptor_def)
  then show ?thesis by (rule invoke_read_fn_calm)
next
  case None
  with assms have "s' = s \<or> (\<exists>tpm m. s' = s\<lparr>ops := ops s @ [Read p tpm fn m]\<rparr>)"
    by (simp add: pipeRead_descriptor_def Let_def split: if_splits) blast
  then show ?thesis
    by (auto simp: calm_def ids_of_def accepts_def)
qed

lemma stop_calm [simp]: "calm s (stop s)"
  by (simp add: stop_def calm_def ids_of_def accepts_def)

lemma remove_nth_filter:
  assumes "i < length xs"
  shows "length (filter P (remove_nth i xs)) =
     length (filter P xs) - (if P (xs ! i) then 1 else 0)"
proof -
  from assms have "xs = take i xs @ xs ! i # drop (Suc i) xs"
    by (simp add: id_take_nth_drop)
  then have "filter P xs = filter P (take i xs) @ filter P [xs ! i] @ filter P (drop (Suc i) xs)"
    by (metis append_Cons append_Nil filter_append)
  then show ?thesis by (simp add: remove_nth_def)
qed

lemma take_op_other:
  assumes "i < length (ops s)" and "ops s ! i \<noteq> Accept"
  shows "calm s (take_op i s)"
  using assms remove_nth_filter[of i "ops s" "\<lambda>x. x = Accept"]
  by (simp add: calm_def take_op_def ids_of_def accepts_def)

lemma take_op_accept:
  assumes "i < length (ops s)" and "ops s ! i = Accept"
  shows "accepts (take_op i s) = accepts s - 1 \<and> 0 < accepts s \<and>
    nextMessageID (take_op i s) = nextMessageID s \<and> ids_of (take_op i s) = ids_of s"
proof -
  from assms have "Accept \<in> set (ops s)" by (metis nth_mem)
  then have "0 < accepts s" by (simp add: accepts_def filter_empty_conv)
  with assms remove_nth_filter[of i "ops s" "\<lambda>x. x = Accept"] show ?thesis
    by (auto simp: take_op_def ids_of_def accepts_def)
qed

lemma onListenerAccepted_effect:
  "ops (onListenerAccepted error p s) =
     ops s @ (case error of None \<Rightarrow> [Accept, ReadDescriptor p (RespondRead p)] | Some _ \<Rightarrow> []) \<and>
   log (onListenerAccepted error p s) =
     log s @ (case error of None \<Rightarrow> [] | Some what \<Rightarrow> [''got error from listener: '' @ what]) \<and>
   nextMessageID (onListenerAccepted error p s) = nextMessageID s \<and>
   connectedPipes (onListenerAccepted error p s) = connectedPipes s"
  by (simp add: onListenerAccepted_def respond_def pipeRead_def LOG_WARNING_def
        split: option.splits)

lemma send_opens_connection:
  assumes "map_of (connectedPipes s) (workerId to) = None"
    and "isRequest requestMessage" and "rpcAgentRunning s"
    and "map_of (workerNameToURL s) (workerName to) = Some url"
  shows "send to requestMessage s =
    (Inr (nextFuture s),
     s\<lparr>connected := connected s @ [url],
       connectedPipes :=
         AList.map_entry (workerId to)
           (\<lambda>cp. cp\<lparr>pendingResponseMessage :=
                      AList.update (nextMessageID s) (nextFuture s)
                        (pendingResponseMessage cp)\<rparr>)
           (connectedPipes s @ [(workerId to, new_ClientPipe (length (connected s)))]),
       nextMessageID := nextMessageID s + 1,
       futures := AList.update (nextFuture s) new_FutureMessage (futures s),
       nextFuture := Suc (nextFuture s),
       ops := ops s @
         [Write (length (connected s))
            (tensorpipeSerialize (requestMessage\<lparr>msg_id := nextMessageID s\<rparr>))
            (requestMessage\<lparr>msg_id := nextMessageID s\<rparr>)
            (SendWritten (workerId to) (nextFuture s))]\<rparr>)"
  using assms
  by (simp add: send_def findWorkerURL_def make_shared_def update_pipe_def pipeWrite_def
        context_connect_def map_of_map_entry Let_def new_ClientPipe_def map_add_def)

lemma send_fails:
  assumes "\<not> isRequest requestMessage \<or> \<not> rpcAgentRunning s \<or>
           map_of (workerNameToURL s) (workerName to) = None"
  shows "\<exists>e. send to requestMessage s = (Inl e, s)"
  using assms by (auto simp: send_def findWorkerURL_def)

lemma send_effect:
  assumes "send to m s = (res, s')"
  shows "accepts s' = accepts s \<and>
    ((s' = s \<and> (\<exists>e. res = Inl e)) \<or>
     (res = Inr (nextFuture s) \<and> nextMessageID s' = nextMessageID s + 1 \<and>
      rpcAgentRunning s' = rpcAgentRunning s \<and> workerNameToURL s' = workerNameToURL s \<and>
      nextFuture s' = Suc (nextFuture s) \<and>
      (\<forall>w. ids_of s' w =
             (if w = workerId to then insert (nextMessageID s) (ids_of s w)
              else ids_of s w))))"
proof (cases "\<not> isRequest m \<or> \<not> rpcAgentRunning s \<or>
           map_of (workerNameToURL s) (workerName to) = None")
  case True
  from send_fails[OF this] assms show ?thesis by auto
next
  case False
  then obtain url where ok: "isRequest m" "rpcAgentRunning s"
      "map_of (workerNameToURL s) (workerName to) = Some url"
    by auto
  show ?thesis
  proof (cases "map_of (connectedPipes s) (workerId to)")
    case None
    from send_opens_connection[OF None ok] assms None show ?thesis
      by (auto simp: accepts_def ids_of_def ids_map_entry dom_update new_ClientPipe_def
            map_add_def split: option.splits)
  next
    case (Some cp)
    from send_reuses_connection[OF Some ok] assms Some show ?thesis
      by (auto simp: accepts_def ids_of_def ids_map_entry dom_update split: option.splits)
  qed
qed

lemma step_calm:
  assumes "step ev s = Some (res, s')" and "\<not> is_CallSend ev" and "\<not> is_Accepted ev"
  shows "calm s s'"
proof (cases ev)
  case (CallSend to m)
  with assms show ?thesis by (simp add: is_CallSend_def)
next
  case (Accepted i error p)
  with assms show ?thesis by (simp add: is_Accepted_def)
next
  case (DescriptorRead i error d)
  with assms obtain p fn where o: "i < length (ops s)" "ops s ! i = ReadDescriptor p fn"
      "pipeRead_descriptor tensorpipeAllocateMessage p fn error d (take_op i s) = (res, s')"
    by (auto simp: step_def split: if_splits op.splits)
  from take_op_other[OF o(1)] o(2) have "calm s (take_op i s)" by simp
  with pipeRead_descriptor_calm[OF o(3)] show ?thesis by (blast intro: calm_trans)
next
  case (DataRead i error bytes tbytes)
  with assms obtain p tpm fn m where o: "i < length (ops s)" "ops s ! i = Read p tpm fn m"
      "pipeRead_read fn (transport_fill tpm bytes tbytes m) error (take_op i s) = (res, s')"
    by (auto simp: step_def split: if_splits op.splits)
  from take_op_other[OF o(1)] o(2) have "calm s (take_op i s)" by simp
  moreover from o(3) have "calm (take_op i s) s'"
    by (auto simp: pipeRead_read_def dest: invoke_read_fn_calm)
  ultimately show ?thesis by (rule calm_trans)
next
  case (Written i error)
  with assms obtain p tpm m fn where o: "i < length (ops s)" "ops s ! i = Write p tpm m fn"
      "pipeWrite_written fn error (take_op i s) = (res, s')"
    by (auto simp: step_def split: if_splits op.splits)
  from take_op_other[OF o(1)] o(2) have "calm s (take_op i s)" by simp
  moreover from o(3) have "calm (take_op i s) s'"
    by (auto simp: pipeWrite_written_def dest: invoke_write_fn_calm)
  ultimately show ?thesis by (rule calm_trans)
next
  case (RunTask i cb)
  let ?s1 = "s\<lparr>threadPool := remove_nth i (threadPool s)\<rparr>"
  have c1: "calm s ?s1" by (simp add: calm_def ids_of_def accepts_def)
  from assms RunTask have "calm ?s1 s'"
    by (auto simp: step_def Let_def split: if_splits task.splits
          dest: respond_task_calm complete_task_calm)
  with c1 show ?thesis by (rule calm_trans)
next
  case (FutureError r what)
  with assms show ?thesis
    by (auto simp: step_def split: option.splits dest: setError_calm)
next
  case (FutureValue r v)
  with assms show ?thesis
    by (auto simp: step_def split: option.splits dest: markCompleted_calm)
next
  case Stop
  with assms show ?thesis by (auto simp: step_def)
qed

lemma step_accepted:
  assumes "step (Accepted i error p) s = Some (res, s')"
  shows "res = Inr () \<and> nextMessageID s' = nextMessageID s \<and> ids_of s' = ids_of s \<and>
    0 < accepts s \<and>
    accepts s' = accepts s - 1 + (case error of None \<Rightarrow> 1 | Some _ \<Rightarrow> 0) \<and>
    log s' = log s @
      (case error of None \<Rightarrow> [] | Some what \<Rightarrow> [''got error from listener: '' @ what])"
proof -
  from assms have o: "i < length (ops s)" "ops s ! i = Accept" "res = Inr ()"
      "s' = onListenerAccepted error p (take_op i s)"
    by (auto simp: step_def split: if_splits op.splits)
  let ?s1 = "take_op i s"
  note t = take_op_accept[OF o(1,2)]
  note e = onListenerAccepted_effect[of error p ?s1]
  have "ids_of s' = ids_of ?s1"
    using e by (auto simp: ids_of_def o(4) fun_eq_iff)
  moreover have "accepts s' = accepts ?s1 + (case error of None \<Rightarrow> 1 | Some _ \<Rightarrow> 0)"
    using e by (simp add: accepts_def o(4) split: option.splits)
  moreover have "log ?s1 = log s" by (simp add: take_op_def)
  ultimately show ?thesis using t e o(3,4) by simp
qed

lemma step_send:
  assumes "step (CallSend to m) s = Some (res, s')"
  shows "accepts s' = accepts s \<and>
    (s' = s \<or>
     (nextMessageID s' = nextMessageID s + 1 \<and>
      (\<forall>w. ids_of s' w =
             (if w = workerId to then insert (nextMessageID s) (ids_of s w)
              else ids_of s w))))"
proof -
  obtain r1 s1 where s1: "send to m s = (r1, s1)" by (cases "send to m s")
  with assms have "s' = s1" by (simp add: step_def)
  with send_effect[OF s1] show ?thesis by auto
qed

lemma step_accepts_le:
  assumes "step ev s = Some (res, s')"
  shows "accepts s' \<le> accepts s \<and> (is_Accepted ev \<longrightarrow> 0 < accepts s)"
proof (cases "is_Accepted ev")
  case True
  then obtain i error p where "ev = Accepted i error p"
    by (cases ev) (auto simp: is_Accepted_def)
  with step_accepted[of i error p s res s'] assms True show ?thesis
    by (auto split: option.splits)
next
  case False
  show ?thesis
  proof (cases "is_CallSend ev")
    case True
    then obtain to m where "ev = CallSend to m"
      by (cases ev) (auto simp: is_CallSend_def)
    with step_send[of to m s res s'] assms False show ?thesis by auto
  next
    case nosend: False
    from step_calm[OF assms nosend False] False show ?thesis by (simp add: calm_def)
  qed
qed

lemma exec_accepts_le:
  assumes "exec evs s = Some (res, s')"
  shows "accepts s' \<le> accepts s"
  using assms
proof (induction evs arbitrary: s)
  case Nil
  then show ?case by simp
next
  case (Cons ev evs)
  from Cons.prems obtain r1 s1 where st: "step ev s = Some (r1, s1)"
    by (cases "step ev s") auto
  from step_accepts_le[OF st] have le: "accepts s1 \<le> accepts s" by simp
  show ?case
  proof (cases r1)
    case (Inl e)
    with Cons.prems st le show ?thesis by simp
  next
    case (Inr u)
    with Cons.prems st have "exec evs s1 = Some (res, s')" by simp
    from Cons.IH[OF this] le show ?thesis by simp
  qed
qed

lemma exec_no_accept:
  assumes "exec evs s = Some (Inr (), s')" and "accepts s = 0"
  shows "accepts s' = 0 \<and> (\<forall>ev \<in> set evs. \<not> is_Accepted ev)"
  using assms
proof (induction evs arbitrary: s)
  case Nil
  then show ?case by simp
next
  case (Cons ev evs)
  from Cons.prems obtain r1 s1 where st: "step ev s = Some (r1, s1)"
    by (cases "step ev s") auto
  from step_accepts_le[OF st] Cons.prems(2)
  have a1: "accepts s1 = 0" and na: "\<not> is_Accepted ev" by auto
  from Cons.prems(1) st have "exec evs s1 = Some (Inr (), s')"
    by (cases r1) auto
  from Cons.IH[OF this a1] na show ?case by simp
qed

text \<open>
  C8: the accept callback arms a new accept (and the first read of the new connection)
  when the accept succeeded, and nothing when it failed: then it only logs the error. In
  a run of a started agent exactly one accept is outstanding whenever an accept completes;
  after it completes with an error none is outstanding, and in every continuation of the
  run none is ever outstanding again, so no accept completes any more.
\<close>

theorem accept_rearmed_only_after_success:
  assumes "exec evs1 (start address get names (TensorPipeAgent selfId selfName)) = Some (Inr (), s)"
    and "step (Accepted i error p) s = Some (res, s1)"
    and "exec evs2 s1 = Some (Inr (), s2)"
  shows "ops (onListenerAccepted error p s0) =
           ops s0 @ (case error of
                       None \<Rightarrow> [Accept, ReadDescriptor p (RespondRead p)]
                     | Some _ \<Rightarrow> []) \<and>
         accepts s1 = (case error of None \<Rightarrow> 1 | Some _ \<Rightarrow> 0) \<and>
         (case error of
            None \<Rightarrow> True
          | Some what \<Rightarrow>
              log s1 = log s @ [''got error from listener: '' @ what] \<and>
              accepts s2 = 0 \<and> (\<forall>ev \<in> set evs2. \<not> is_Accepted ev))"
proof -
  have "accepts (start address get names (TensorPipeAgent selfId selfName)) = 1"
    by (simp add: accepts_def start_def startImpl_def TensorPipeAgent_def Let_def)
  with exec_accepts_le[OF assms(1)] have le: "accepts s \<le> 1" by simp
  note a = step_accepted[OF assms(2)]
  from a le have one: "accepts s = 1" by simp
  with a have s1: "accepts s1 = (case error of None \<Rightarrow> 1 | Some _ \<Rightarrow> 0)" by simp
  have tail: "accepts s2 = 0 \<and> (\<forall>ev \<in> set evs2. \<not> is_Accepted ev)" if "error = Some what" for what
    using exec_no_accept[OF assms(3)] s1 that by simp
  from onListenerAccepted_effect[of error p s0] s1 a tail show ?thesis
    by (auto split: option.splits)
qed

theorem accept_rearmed_only_after_success_witness:
  "exec [] A0 = Some (Inr (), A0) \<and>
   step (Accepted 0 (Some ''accept failed'') 7) A0 = Some (Inr (), A0_deaf) \<and>
   accepts A0_deaf = 0 \<and>
   log A0_deaf = log A0 @ [''got error from listener: accept failed''] \<and>
   exec [Accepted 0 None 8] A0_deaf = None \<and>
   (case exec [CallSend B req, Written 0 None] A0_deaf of
      Some (Inr _, s2) \<Rightarrow> accepts s2 = 0
    | _ \<Rightarrow> False)"
proof -
  have h1: "exec [] (start ''tcp://127.0.0.1:1'' (\<lambda>name. ''tcp://'' @ name) [''A'', ''B'']
          (TensorPipeAgent 0 ''A'')) = Some (Inr (), A0)"
    by (simp add: A0_def)
  have h2: "step (Accepted 0 (Some ''accept failed'') 7) A0 = Some (Inr (), A0_deaf)"
    by code_simp
  have "map_option fst (exec [CallSend B req, Written 0 None] A0_deaf) = Some (Inr ())"
    by code_simp
  then obtain s2 where h3: "exec [CallSend B req, Written 0 None] A0_deaf = Some (Inr (), s2)"
    by (cases "exec [CallSend B req, Written 0 None] A0_deaf") auto
  have n: "exec [Accepted 0 None 8] A0_deaf = None" by code_simp
  from accept_rearmed_only_after_success[OF h1 h2 h3] h1 h2 h3 n show ?thesis
    by (simp add: A0_def)
qed

subsection \<open>Message ids\<close>

lemma wrap_step:
  fixes x :: "64 word"
  assumes "x - 1 - of_nat j = x"
  shows "(of_nat (Suc j) :: 64 word) = 0"
proof -
  have "x - (of_nat j + 1) = x" using assms by (simp add: diff_diff_eq add.commute)
  then have "(of_nat j + 1 :: 64 word) = 0" by (simp only: diff_eq_eq add_cancel_right_right)
  then show ?thesis by (simp add: add.commute)
qed

lemma fresh_id:
  assumes "issued_within n s" and "n < 2 ^ 64"
  shows "nextMessageID s \<notin> ids_of s w"
proof
  assume "nextMessageID s \<in> ids_of s w"
  with assms(1) have "\<exists>j<n. nextMessageID s = nextMessageID s - 1 - of_nat j"
    unfolding issued_within_def by blast
  then obtain j where j: "j < n" "nextMessageID s - 1 - of_nat j = nextMessageID s"
    by metis
  from wrap_step[OF j(2)] have "(of_nat (Suc j) :: 64 word) = 0" .
  moreover have "(of_nat (Suc j) :: 64 word) \<noteq> 0"
    by (rule of_nat_neq_0) (use j(1) assms(2) in simp_all)
  ultimately show False by simp
qed

lemma issued_within_mono:
  assumes "issued_within n s" and "n \<le> m"
  shows "issued_within m s"
  unfolding issued_within_def
proof (intro allI ballI)
  fix w k assume "k \<in> ids_of s w"
  with assms(1) obtain j where "j < n" "k = nextMessageID s - 1 - of_nat j"
    unfolding issued_within_def by blast
  with assms(2) have "j < m \<and> k = nextMessageID s - 1 - of_nat j" by simp
  then show "\<exists>j<m. k = nextMessageID s - 1 - of_nat j" by blast
qed

lemma calm_inv:
  assumes "calm s s'" and "issued_within n s" and "tables_disjoint s"
  shows "issued_within n s' \<and> tables_disjoint s'"
proof -
  from assms(1) have nx: "nextMessageID s' = nextMessageID s"
    and sub: "\<And>w. ids_of s' w \<subseteq> ids_of s w"
    by (simp_all add: calm_def)
  have "issued_within n s'"
    unfolding issued_within_def
  proof (intro allI ballI)
    fix w k assume "k \<in> ids_of s' w"
    with sub have "k \<in> ids_of s w" by blast
    with assms(2) have "\<exists>j<n. k = nextMessageID s - 1 - of_nat j"
      unfolding issued_within_def by blast
    then show "\<exists>j<n. k = nextMessageID s' - 1 - of_nat j" by (simp only: nx)
  qed
  moreover have "tables_disjoint s'"
    unfolding tables_disjoint_def
  proof (intro allI impI)
    fix w w' :: worker_id_t assume "w \<noteq> w'"
    with assms(3) have "ids_of s w \<inter> ids_of s w' = {}"
      unfolding tables_disjoint_def by blast
    with sub[of w] sub[of w'] show "ids_of s' w \<inter> ids_of s' w' = {}" by blast
  qed
  ultimately show ?thesis by simp
qed

lemma send_inv:
  assumes "nextMessageID s' = nextMessageID s + 1"
    and ids: "\<And>w. ids_of s' w =
             (if w = w0 then insert (nextMessageID s) (ids_of s w) else ids_of s w)"
    and "issued_within n s" and "tables_disjoint s" and "n < 2 ^ 64"
  shows "issued_within (Suc n) s' \<and> tables_disjoint s'"
proof -
  have fresh: "nextMessageID s \<notin> ids_of s w" for w
    by (rule fresh_id[OF assms(3,5)])
  have "issued_within (Suc n) s'"
    unfolding issued_within_def
  proof (intro allI ballI)
    fix w k assume "k \<in> ids_of s' w"
    with ids have "k = nextMessageID s \<or> k \<in> ids_of s w" by (auto split: if_splits)
    then show "\<exists>j<Suc n. k = nextMessageID s' - 1 - of_nat j"
    proof
      assume "k = nextMessageID s"
      then have "k = nextMessageID s' - 1 - of_nat 0" by (simp add: assms(1))
      then show ?thesis by blast
    next
      assume "k \<in> ids_of s w"
      with assms(3) obtain j where "j < n" "k = nextMessageID s - 1 - of_nat j"
        by (auto simp: issued_within_def)
      then have "Suc j < Suc n" "k = nextMessageID s' - 1 - of_nat (Suc j)"
        by (simp_all add: assms(1))
      then show ?thesis by blast
    qed
  qed
  moreover have "tables_disjoint s'"
    unfolding tables_disjoint_def
  proof (intro allI impI)
    fix w w' :: worker_id_t assume ne: "w \<noteq> w'"
    with assms(4) have "ids_of s w \<inter> ids_of s w' = {}" by (simp add: tables_disjoint_def)
    with fresh[of w] fresh[of w'] ids ne show "ids_of s' w \<inter> ids_of s' w' = {}"
      by auto
  qed
  ultimately show ?thesis by simp
qed

lemma step_inv:
  assumes "step ev s = Some (res, s')" and "issued_within n s" and "tables_disjoint s"
    and "is_CallSend ev \<longrightarrow> n < 2 ^ 64"
  shows "issued_within (n + (if is_CallSend ev then 1 else 0)) s' \<and> tables_disjoint s'"
proof (cases "is_CallSend ev")
  case True
  then obtain to m where ev: "ev = CallSend to m"
    by (cases ev) (auto simp: is_CallSend_def)
  from step_send[of to m s res s'] assms(1) ev
  consider "s' = s" |
    "nextMessageID s' = nextMessageID s + 1"
    "\<And>w. ids_of s' w =
             (if w = workerId to then insert (nextMessageID s) (ids_of s w) else ids_of s w)"
    by auto
  then show ?thesis
  proof cases
    case 1
    with assms(2,3) True issued_within_mono[of n s "Suc n"] show ?thesis by simp
  next
    case 2
    from send_inv[OF 2(1) 2(2) assms(2,3)] assms(4) True show ?thesis by simp
  qed
next
  case False
  show ?thesis
  proof (cases "is_Accepted ev")
    case True
    then obtain i error p where "ev = Accepted i error p"
      by (cases ev) (auto simp: is_Accepted_def)
    with step_accepted[of i error p s res s'] assms(1)
    have "nextMessageID s' = nextMessageID s" "ids_of s' = ids_of s" by auto
    with assms(2,3) False show ?thesis
      by (simp add: issued_within_def tables_disjoint_def)
  next
    case na: False
    from calm_inv[OF step_calm[OF assms(1) False na] assms(2,3)] False show ?thesis by simp
  qed
qed

lemma exec_inv:
  assumes "exec evs s = Some (res, s')" and "issued_within n s" and "tables_disjoint s"
    and "n + sends evs \<le> 2 ^ 64"
  shows "issued_within (n + sends evs) s' \<and> tables_disjoint s'"
  using assms
proof (induction evs arbitrary: s n)
  case Nil
  then show ?case by (simp add: sends_def)
next
  case (Cons ev evs)
  let ?k = "if is_CallSend ev then 1 else 0 :: nat"
  have sn: "sends (ev # evs) = ?k + sends evs" by (simp add: sends_def)
  from Cons.prems(1) obtain r1 s1 where st: "step ev s = Some (r1, s1)"
    by (cases "step ev s") auto
  from Cons.prems(4) sn have "is_CallSend ev \<longrightarrow> n < 2 ^ 64" by auto
  from step_inv[OF st Cons.prems(2,3) this]
  have inv1: "issued_within (n + ?k) s1" "tables_disjoint s1" by simp_all
  show ?case
  proof (cases r1)
    case (Inl e)
    with Cons.prems(1) st have "s' = s1" by simp
    with inv1 issued_within_mono[of "n + ?k" s1 "n + sends (ev # evs)"] sn show ?thesis
      by simp
  next
    case (Inr u)
    with Cons.prems(1) st have ex: "exec evs s1 = Some (res, s')" by simp
    from Cons.prems(4) sn have "(n + ?k) + sends evs \<le> 2 ^ 64" by simp
    from Cons.IH[OF ex inv1 this] sn show ?thesis by (simp add: add.assoc)
  qed
qed

lemma registered_in_ids: "registered s w i r \<Longrightarrow> i \<in> ids_of s w"
  by (auto simp: registered_def ids_of_def split: option.splits dest!: map_of_SomeD
        intro: rev_image_eqI)

lemma send_succeeds:
  assumes "isRequest m" and "rpcAgentRunning s"
    and "map_of (workerNameToURL s) (workerName to) = Some url"
  shows "\<exists>s'. send to m s = (Inr (nextFuture s), s')"
proof (cases "map_of (connectedPipes s) (workerId to)")
  case None
  from send_opens_connection[OF None assms] show ?thesis by blast
next
  case (Some cp)
  from send_reuses_connection[OF Some assms] show ?thesis by blast
qed

lemma send_registers:
  assumes "send to m s = (Inr r, s')"
  shows "registered s' (workerId to) (nextMessageID s) r \<and>
         (\<forall>w i r'. registered s w i r' \<and> i \<noteq> nextMessageID s \<longrightarrow> registered s' w i r')"
proof -
  from assms send_fails[of m s to] obtain url where ok: "isRequest m" "rpcAgentRunning s"
      "map_of (workerNameToURL s) (workerName to) = Some url"
    by (cases "map_of (workerNameToURL s) (workerName to)") auto
  show ?thesis
  proof (cases "map_of (connectedPipes s) (workerId to)")
    case None
    from send_opens_connection[OF None ok] assms None show ?thesis
      by (auto simp: registered_def map_of_map_entry update_conv' new_ClientPipe_def
            map_add_def split: option.splits)
  next
    case (Some cp)
    from send_reuses_connection[OF Some ok] assms Some show ?thesis
      by (auto simp: registered_def map_of_map_entry update_conv' split: option.splits)
  qed
qed

lemma many_sends:
  assumes "isRequest m" and "rpcAgentRunning s"
    and "map_of (workerNameToURL s) (workerName to) = Some url"
  shows "\<exists>s'. exec (replicate n (CallSend to m)) s = Some (Inr (), s') \<and>
           nextMessageID s' = nextMessageID s + of_nat n \<and>
           ids_of s' (workerId to) =
             ids_of s (workerId to) \<union> (\<lambda>j. nextMessageID s + of_nat j) ` {..<n}"
  using assms(2,3)
proof (induction n arbitrary: s)
  case 0
  then show ?case by simp
next
  case (Suc n)
  from send_succeeds[OF assms(1) Suc.prems] obtain s1
    where s1: "send to m s = (Inr (nextFuture s), s1)" by blast
  from send_effect[OF s1]
  have eff: "nextMessageID s1 = nextMessageID s + 1" "rpcAgentRunning s1 = rpcAgentRunning s"
      "workerNameToURL s1 = workerNameToURL s"
      "ids_of s1 (workerId to) = insert (nextMessageID s) (ids_of s (workerId to))"
    by auto
  from eff Suc.prems have p1: "rpcAgentRunning s1"
      "map_of (workerNameToURL s1) (workerName to) = Some url"
    by simp_all
  from Suc.IH[OF p1] obtain s' where s':
      "exec (replicate n (CallSend to m)) s1 = Some (Inr (), s')"
      "nextMessageID s' = nextMessageID s1 + of_nat n"
      "ids_of s' (workerId to) =
         ids_of s1 (workerId to) \<union> (\<lambda>j. nextMessageID s1 + of_nat j) ` {..<n}"
    by blast
  have st: "step (CallSend to m) s = Some (Inr (), s1)"
    using s1 by (simp add: step_def)
  have ex: "exec (replicate (Suc n) (CallSend to m)) s = Some (Inr (), s')"
    using st s'(1) by simp
  have nx: "nextMessageID s' = nextMessageID s + of_nat (Suc n)"
    using s'(2) eff(1) by simp
  have img: "(\<lambda>j. nextMessageID s + of_nat j) ` {..<Suc n} =
      insert (nextMessageID s) ((\<lambda>j. nextMessageID s1 + of_nat j) ` {..<n})"
    unfolding lessThan_Suc_eq_insert_0 eff(1)
    by (simp add: image_image add.assoc)
  have ids: "ids_of s' (workerId to) =
      ids_of s (workerId to) \<union> (\<lambda>j. nextMessageID s + of_nat j) ` {..<Suc n}"
    unfolding img s'(3) eff(4) by blast
  from ex nx ids show ?case by blast
qed

text \<open>
  C5, as the code has it: in a run of a started agent with fewer than \<open>2 ^ 64\<close> calls of
  \<^verbatim>\<open>send\<close>, the value of the 64-bit counter is in no pending table and no message id is
  in the pending tables of two connections; so a send that follows registers its handle
  under an id that differs from the id of every request still in flight, on its own and
  on every other connection, and displaces none of them.
\<close>

theorem outstanding_ids_distinct:
  assumes "exec evs (start address get names (TensorPipeAgent selfId selfName)) = Some (res, s)"
    and "sends evs < 2 ^ 64"
  shows "(\<forall>w. nextMessageID s \<notin> ids_of s w) \<and>
         (\<forall>w w'. w \<noteq> w' \<longrightarrow> ids_of s w \<inter> ids_of s w' = {}) \<and>
         (\<forall>to m r s'. send to m s = (Inr r, s') \<longrightarrow>
            registered s' (workerId to) (nextMessageID s) r \<and>
            (\<forall>w i r'. registered s w i r' \<longrightarrow>
               i \<noteq> nextMessageID s \<and> registered s' w i r'))"
proof -
  let ?s0 = "start address get names (TensorPipeAgent selfId selfName)"
  have c0: "connectedPipes ?s0 = []"
    by (simp add: start_def startImpl_def TensorPipeAgent_def Let_def)
  then have i0: "issued_within 0 ?s0"
    by (simp add: issued_within_def ids_of_def)
  from c0 have d0: "tables_disjoint ?s0"
    by (simp add: tables_disjoint_def ids_of_def)
  from assms(2) have "0 + sends evs \<le> 2 ^ 64" by simp
  from exec_inv[OF assms(1) i0 d0 this]
  have inv: "issued_within (sends evs) s" "tables_disjoint s" by simp_all
  have fresh: "nextMessageID s \<notin> ids_of s w" for w
    by (rule fresh_id[OF inv(1) assms(2)])
  have keep: "registered s' (workerId to) (nextMessageID s) r \<and>
            (\<forall>w i r'. registered s w i r' \<longrightarrow>
               i \<noteq> nextMessageID s \<and> registered s' w i r')"
    if "send to m s = (Inr r, s')" for to m r s'
  proof -
    note sr = send_registers[OF that]
    have "i \<noteq> nextMessageID s \<and> registered s' w i r'" if reg: "registered s w i r'" for w i r'
    proof -
      from registered_in_ids[OF reg] fresh[of w] have "i \<noteq> nextMessageID s" by blast
      with sr reg show ?thesis by blast
    qed
    with sr show ?thesis by blast
  qed
  from fresh inv(2) keep show ?thesis
    unfolding tables_disjoint_def by blast
qed

theorem outstanding_ids_distinct_witness:
  "sends [CallSend B req, CallSend B req] < 2 ^ 64 \<and>
   (case exec [CallSend B req, CallSend B req] A0 of
      Some (Inr _, s) \<Rightarrow>
        nextMessageID s = 2 \<and> 0 \<in> ids_of s 1 \<and> 1 \<in> ids_of s 1 \<and>
        nextMessageID s \<notin> ids_of s 1
    | _ \<Rightarrow> False)"
proof -
  have n: "sends [CallSend B req, CallSend B req] < 2 ^ 64"
    by (simp add: sends_def is_CallSend_def)
  have c: "(case exec [CallSend B req, CallSend B req] A0 of
      Some (Inr _, s) \<Rightarrow> nextMessageID s = 2 \<and> 0 \<in> ids_of s 1 \<and> 1 \<in> ids_of s 1
    | _ \<Rightarrow> False)"
    by code_simp
  then obtain s where s: "exec [CallSend B req, CallSend B req] A0 = Some (Inr (), s)"
    by (auto split: option.splits sum.splits)
  then have h: "exec [CallSend B req, CallSend B req]
      (start ''tcp://127.0.0.1:1'' (\<lambda>name. ''tcp://'' @ name) [''A'', ''B'']
          (TensorPipeAgent 0 ''A'')) = Some (Inr (), s)"
    by (simp add: A0_def)
  from outstanding_ids_distinct[OF h n] have "nextMessageID s \<notin> ids_of s 1" by blast
  with c n s show ?thesis by simp
qed

text \<open>
  Without the bound the counter wraps around: after \<open>2 ^ 64\<close> sends to B that are all
  still in flight, the first request is in the pending table under the id 0 and the
  counter is at 0 again, the id that the next send is given.
\<close>

theorem outstanding_ids_collide_after_wraparound:
  "(case exec wraparound_run A0 of
      Some (Inr _, s) \<Rightarrow> nextMessageID s = 0 \<and> 0 \<in> ids_of s 1
    | _ \<Rightarrow> False)"
proof -
  have h1: "isRequest req" by code_simp
  have h2: "rpcAgentRunning A0" by code_simp
  have h3: "map_of (workerNameToURL A0) (workerName B) = Some ''tcp://B''" by code_simp
  have n0: "nextMessageID A0 = 0" by code_simp
  have w: "workerId B = 1" by (simp add: B_def)
  from many_sends[OF h1 h2 h3, of "2 ^ 64"] obtain s'
    where s': "exec wraparound_run A0 = Some (Inr (), s')"
      "nextMessageID s' = nextMessageID A0 + of_nat (2 ^ 64)"
      "ids_of s' (workerId B) =
         ids_of A0 (workerId B) \<union> (\<lambda>j. nextMessageID A0 + of_nat j) ` {..<2 ^ 64}"
    unfolding wraparound_run_def by blast
  have z: "(of_nat (2 ^ 64) :: 64 word) = 0" by simp
  have nx: "nextMessageID s' = 0" unfolding s'(2) n0 z by simp
  have "(0::nat) \<in> {..<2 ^ 64}" by simp
  then have "nextMessageID A0 + of_nat 0 \<in> (\<lambda>j. nextMessageID A0 + of_nat j) ` {..<2 ^ 64}"
    by (rule imageI)
  then have "0 \<in> ids_of s' (workerId B)"
    unfolding s'(3) n0 by simp
  then have "0 \<in> ids_of s' 1" unfolding w .
  with nx show ?thesis unfolding s'(1) by simp
qed

subsection \<open>A failed write\<close>

lemma remove_nth_filter_eq:
  assumes "i < length xs" and "\<not> P (xs ! i)"
  shows "filter P (remove_nth i xs) = filter P xs"
proof -
  from assms(1) have "xs = take i xs @ xs ! i # drop (Suc i) xs"
    by (simp add: id_take_nth_drop)
  then have "filter P xs = filter P (take i xs @ xs ! i # drop (Suc i) xs)" by simp
  also have "\<dots> = filter P (take i xs) @ filter P (drop (Suc i) xs)"
    using assms(2) by simp
  finally show ?thesis by (simp add: remove_nth_def)
qed

lemma send_queues_write:
  assumes "send to m s = (Inr r, s1)"
  shows "(\<exists>p. last (ops s1) =
            Write p (tensorpipeSerialize (m\<lparr>msg_id := nextMessageID s\<rparr>))
              (m\<lparr>msg_id := nextMessageID s\<rparr>) (SendWritten (workerId to) r)) \<and>
         pending s1 r"
proof -
  from assms send_fails[of m s to] obtain url where ok: "isRequest m" "rpcAgentRunning s"
      "map_of (workerNameToURL s) (workerName to) = Some url"
    by (cases "map_of (workerNameToURL s) (workerName to)") auto
  show ?thesis
  proof (cases "map_of (connectedPipes s) (workerId to)")
    case None
    from send_opens_connection[OF None ok] assms show ?thesis
      by (auto simp: pending_def update_conv' new_FutureMessage_def)
  next
    case (Some cp)
    from send_reuses_connection[OF Some ok] assms show ?thesis
      by (auto simp: pending_def update_conv' new_FutureMessage_def)
  qed
qed

lemma step_write_error:
  assumes "i < length (ops s2)" and "ops s2 ! i = Write p tpm m (SendWritten w r)"
    and "step (Written i (Some what)) s2 = Some (res, s3)"
  shows "filter is_read (ops s3) = filter is_read (ops s2) \<and>
         (pending s2 r \<longrightarrow> failed_with s3 r what \<and> res \<noteq> Inl AlreadyCompleted)"
proof -
  let ?s = "take_op i s2"
  from assms have sw: "send_write w r (Some what) ?s = (res, s3)"
    by (simp add: step_def pipeWrite_written_def invoke_write_fn_def)
  have "\<not> is_read (ops s2 ! i)" by (simp add: assms(2) is_read_def)
  from remove_nth_filter_eq[of i "ops s2" is_read, OF assms(1) this]
  have "filter is_read (ops ?s) = filter is_read (ops s2)" by (simp add: take_op_def)
  with send_write_error_reads[OF sw]
  have reads: "filter is_read (ops s3) = filter is_read (ops s2)" by simp
  have "pending ?s r = pending s2 r" by (simp add: pending_def take_op_def)
  with send_write_error_pending[OF _ sw] reads show ?thesis by blast
qed

text \<open>
  C7, as the code has it: \<^verbatim>\<open>send\<close> returns a handle that is not complete and queues one
  write whose callback holds that handle. When the transport completes that write with an
  error, in whatever later state, the step arms no read: the reads outstanding are the
  same before and after; and when the handle is still not complete at that moment, the
  write callback itself completes it with the write error.
\<close>

theorem failed_write_completes_pending_handle:
  assumes "send toWorkerInfo requestMessage s = (Inr r, s1)"
    and "i < length (ops s2)" and "ops s2 ! i = last (ops s1)"
    and "step (Written i (Some what)) s2 = Some (res, s3)"
  shows "(\<exists>p. last (ops s1) =
            Write p (tensorpipeSerialize (requestMessage\<lparr>msg_id := nextMessageID s\<rparr>))
              (requestMessage\<lparr>msg_id := nextMessageID s\<rparr>)
              (SendWritten (workerId toWorkerInfo) r)) \<and>
         pending s1 r \<and>
         filter is_read (ops s3) = filter is_read (ops s2) \<and>
         (pending s2 r \<longrightarrow> failed_with s3 r what \<and> res \<noteq> Inl AlreadyCompleted)"
proof -
  from send_queues_write[OF assms(1)] obtain p where
    w: "last (ops s1) =
            Write p (tensorpipeSerialize (requestMessage\<lparr>msg_id := nextMessageID s\<rparr>))
              (requestMessage\<lparr>msg_id := nextMessageID s\<rparr>)
              (SendWritten (workerId toWorkerInfo) r)"
    and p1: "pending s1 r" by blast
  from assms(3) w have "ops s2 ! i =
            Write p (tensorpipeSerialize (requestMessage\<lparr>msg_id := nextMessageID s\<rparr>))
              (requestMessage\<lparr>msg_id := nextMessageID s\<rparr>)
              (SendWritten (workerId toWorkerInfo) r)" by simp
  from step_write_error[OF assms(2) this assms(4)] w p1 show ?thesis by blast
qed

theorem failed_write_completes_pending_handle_witness:
  "send B req A0 = (Inr 0, A1) \<and> ops A1 ! 1 = last (ops A1) \<and> pending A1 0 \<and>
   (case step (Written 1 (Some ''broken pipe'')) A1 of
      Some (Inr _, s3) \<Rightarrow>
        failed_with s3 0 ''broken pipe'' \<and> filter is_read (ops s3) = filter is_read (ops A1)
    | _ \<Rightarrow> False)"
proof -
  have h1: "send B req A0 = (Inr 0, A1)" by code_simp
  have h2: "1 < length (ops A1)" by code_simp
  have h3: "ops A1 ! 1 = last (ops A1)" by code_simp
  have p: "pending A1 0" by code_simp
  have "map_option fst (step (Written 1 (Some ''broken pipe'')) A1) = Some (Inr ())"
    by code_simp
  then obtain s3 where h4: "step (Written 1 (Some ''broken pipe'')) A1 = Some (Inr (), s3)"
    by (cases "step (Written 1 (Some ''broken pipe'')) A1") auto
  from failed_write_completes_pending_handle[OF h1 h2 h3 h4] p
  have "failed_with s3 0 ''broken pipe'' \<and> filter is_read (ops s3) = filter is_read (ops A1)"
    by blast
  with h1 h3 p h4 show ?thesis by simp
qed

text \<open>
  The run \<open>read_fails_then_write_fails\<close>: when the second write fails, its handle already
  holds the error of the read, given by the flush of the connection; the write callback
  does not complete it, the handle never holds the write error.
\<close>

theorem failed_write_after_flush_counterexample:
  "(case exec (butlast read_fails_then_write_fails) A0 of
      Some (Inr _, s) \<Rightarrow>
        ops s ! 1 =
          Write 0 (tensorpipeSerialize (req\<lparr>msg_id := 1\<rparr>)) (req\<lparr>msg_id := 1\<rparr>)
            (SendWritten 1 1) \<and>
        failed_with s 1 ''eof''
    | _ \<Rightarrow> False) \<and>
   (case exec read_fails_then_write_fails A0 of
      Some (Inl AlreadyCompleted, s) \<Rightarrow>
        failed_with s 1 ''eof'' \<and> \<not> failed_with s 1 ''broken pipe''
    | _ \<Rightarrow> False)"
  by code_simp

end
